theory Spec2Isabelle
  imports Main "HOL-Library.Word"
begin

section \<open>SQL values and errors\<close>

text \<open>
  The persisted layout is the PostgreSQL schema of \<^verbatim>\<open>database/init.sql\<close> and of
  migration 002. A table is the list of its rows, a nullable column is an \<open>option\<close>, and a
  statement that raises leaves the database as it was (the statement is rolled back), so
  every statement returns \<open>sql_error + db\<close>. The timestamps \<^verbatim>\<open>created_at\<close> and
  \<^verbatim>\<open>updated_at\<close> are columns of the transaction rows, where \<^verbatim>\<open>NOW()\<close> is the
  time handed to the statement; for the other tables they are left out, together with the
  triggers that only maintain them. The tables \<^verbatim>\<open>users\<close>, \<^verbatim>\<open>merchants\<close> and
  \<^verbatim>\<open>stores\<close> and the foreign keys into them are left out as well. A column that a
  statement leaves out takes its default; where a column is given, the statement takes the
  value that is stored after the defaults.
\<close>

type_synonym uuid = nat

type_synonym timestamp = nat

datatype sql_error =
    unique_violation
  | foreign_key_violation
  | numeric_value_out_of_range
  | string_data_right_truncation

text \<open>
  \<^verbatim>\<open>id UUID PRIMARY KEY DEFAULT uuid_generate_v4()\<close>: the default draws an identifier
  that is not in the table yet.
\<close>

definition uuid_generate :: "uuid list \<Rightarrow> uuid" where
  "uuid_generate ids = Suc (fold max ids 0)"

text \<open>
  A decimal literal \<open>Decimal m e\<close> denotes \<open>m / 10 ^ e\<close>; the type \<^verbatim>\<open>numeric\<close> has
  the special values \<^verbatim>\<open>NaN\<close>, \<^verbatim>\<open>Infinity\<close> and \<^verbatim>\<open>-Infinity\<close> besides. A column
  of type \<^verbatim>\<open>NUMERIC(p, s)\<close> rounds a finite value to \<open>s\<close> fractional digits (half away
  from zero) and raises when the rounded value needs more than \<open>p\<close> digits; it raises on
  an infinite value, and it stores \<^verbatim>\<open>NaN\<close> as it is. A stored finite value is kept as
  the integer number of units of \<open>10 ^ - s\<close>.
\<close>

datatype decimal = Decimal int nat | NotANumber | PlusInfinity | MinusInfinity

datatype numeric_value = Number int | NaN

definition round_half_away :: "int \<Rightarrow> int \<Rightarrow> int" where
  "round_half_away m d = sgn m * ((2 * \<bar>m\<bar> + d) div (2 * d))"

fun numeric :: "nat \<Rightarrow> nat \<Rightarrow> decimal \<Rightarrow> sql_error + numeric_value" where
  "numeric p s (Decimal m e) =
     (let u = (if e \<le> s then m * 10 ^ (s - e) else round_half_away m (10 ^ (e - s)))
      in if \<bar>u\<bar> < 10 ^ p then Inr (Number u) else Inl numeric_value_out_of_range)"
| "numeric p s NotANumber = Inr NaN"
| "numeric p s PlusInfinity = Inl numeric_value_out_of_range"
| "numeric p s MinusInfinity = Inl numeric_value_out_of_range"

fun numeric_opt :: "nat \<Rightarrow> nat \<Rightarrow> decimal option \<Rightarrow> sql_error + numeric_value option" where
  "numeric_opt p s None = Inr None"
| "numeric_opt p s (Some x) =
     (case numeric p s x of Inl e \<Rightarrow> Inl e | Inr u \<Rightarrow> Inr (Some u))"

text \<open>
  \<^verbatim>\<open>VARCHAR(n)\<close>: a longer value raises, unless the excess consists of spaces only, in
  which case it is cut to \<open>n\<close> characters.
\<close>

definition varchar :: "nat \<Rightarrow> string \<Rightarrow> sql_error + string" where
  "varchar n v =
     (if length v \<le> n then Inr v
      else if \<forall>c \<in> set (drop n v). c = CHR '' '' then Inr (take n v)
      else Inl string_data_right_truncation)"

fun varchar_opt :: "nat \<Rightarrow> string option \<Rightarrow> sql_error + string option" where
  "varchar_opt n None = Inr None"
| "varchar_opt n (Some v) =
     (case varchar n v of Inl e \<Rightarrow> Inl e | Inr w \<Rightarrow> Inr (Some w))"

text \<open>
  \<^verbatim>\<open>INTEGER\<close> arithmetic: \<^verbatim>\<open>NULL\<close> is absorbing, and a result outside the
  32-bit range raises instead of wrapping.
\<close>

definition int4pl :: "int option \<Rightarrow> int \<Rightarrow> sql_error + int option" where
  "int4pl x d =
     (case x of
        None \<Rightarrow> Inr None
      | Some v \<Rightarrow>
          if v + d < - 2147483648 \<or> 2147483647 < v + d
          then Inl numeric_value_out_of_range
          else Inr (Some (v + d)))"

section \<open>Tables\<close>

type_synonym date = "nat \<times> nat \<times> nat"

record import_batch_row =
  batch_id :: uuid
  batch_user_id :: uuid
  file_name :: string
  file_hash :: string
  batch_account_number :: "string option"
  account_type :: "string option"
  batch_currency :: "string option"
  period_start :: "date option"
  period_end :: "date option"
  raw_content :: "string option"
  transactions_imported :: "int option"
  duplicates_skipped :: "int option"
  import_status :: "string option"
  error_message :: "string option"

record transaction_row =
  txn_id :: uuid
  txn_user_id :: uuid
  import_batch_id :: "uuid option"
  transaction_hash :: string
  booking_date :: date
  transaction_date :: date
  operation_type :: string
  title :: string
  sender_recipient :: "string option"
  account_number :: "string option"
  amount :: numeric_value
  balance_after :: "numeric_value option"
  currency :: "string option"
  merchant_id :: "uuid option"
  normalized_merchant_name :: "string option"
  merchant_confidence :: "numeric_value option"
  txn_notes :: "string option"
  is_hidden :: "bool option"
  store_identifier :: "string option"
  location_extracted :: "string option"
  raw_merchant_text :: "string option"
  store_id :: "uuid option"
  created_at :: "timestamp option"
  updated_at :: "timestamp option"

record tag_row =
  tag_id :: uuid
  tag_user_id :: uuid
  tag_name :: string
  tag_display_name :: string
  tag_color :: "string option"
  tag_icon :: "string option"
  tag_description :: "string option"
  usage_count :: "int option"

record transaction_tag_row =
  tt_id :: uuid
  tt_transaction_id :: uuid
  tt_tag_id :: uuid
  tt_source :: "string option"
  tt_confidence :: "numeric_value option"

record db =
  import_batches :: "import_batch_row list"
  transactions :: "transaction_row list"
  tags :: "tag_row list"
  transaction_tags :: "transaction_tag_row list"

definition init_db :: db where
  "init_db = \<lparr>import_batches = [], transactions = [], tags = [], transaction_tags = []\<rparr>"

section \<open>The usage-count trigger\<close>

text \<open>
  \<^verbatim>\<open>UPDATE tags SET usage_count = usage_count + d WHERE id = g\<close>: every row whose id
  is \<open>g\<close> is updated; an overflow in one row aborts the statement.
\<close>

fun update_tags_usage :: "uuid \<Rightarrow> int \<Rightarrow> tag_row list \<Rightarrow> sql_error + tag_row list" where
  "update_tags_usage g d [] = Inr []"
| "update_tags_usage g d (t # ts) =
     (if tag_id t = g then
        (case int4pl (usage_count t) d of
           Inl e \<Rightarrow> Inl e
         | Inr v \<Rightarrow>
             (case update_tags_usage g d ts of
                Inl e \<Rightarrow> Inl e
              | Inr ts' \<Rightarrow> Inr (t\<lparr>usage_count := v\<rparr> # ts')))
      else
        (case update_tags_usage g d ts of
           Inl e \<Rightarrow> Inl e
         | Inr ts' \<Rightarrow> Inr (t # ts')))"

datatype tg_op = TG_INSERT | TG_DELETE | TG_UPDATE

text \<open>
  The trigger function \<^verbatim>\<open>update_tag_usage_count()\<close>; its second argument is
  \<^verbatim>\<open>NEW\<close> on an insert and \<^verbatim>\<open>OLD\<close> on a delete.
\<close>

definition update_tag_usage_count ::
  "tg_op \<Rightarrow> transaction_tag_row \<Rightarrow> tag_row list \<Rightarrow> sql_error + tag_row list" where
  "update_tag_usage_count tg r ts =
     (if tg = TG_INSERT then update_tags_usage (tt_tag_id r) 1 ts
      else if tg = TG_DELETE then update_tags_usage (tt_tag_id r) (- 1) ts
      else Inr ts)"

text \<open>
  \<^verbatim>\<open>trigger_update_tag_usage\<close> is declared \<^verbatim>\<open>AFTER INSERT OR DELETE ON
  transaction_tags FOR EACH ROW\<close>: it runs once for every row of the statement.
\<close>

fun trigger_update_tag_usage ::
  "tg_op \<Rightarrow> transaction_tag_row list \<Rightarrow> tag_row list \<Rightarrow> sql_error + tag_row list" where
  "trigger_update_tag_usage tg [] ts = Inr ts"
| "trigger_update_tag_usage tg (r # rs) ts =
     (case update_tag_usage_count tg r ts of
        Inl e \<Rightarrow> Inl e
      | Inr ts' \<Rightarrow> trigger_update_tag_usage tg rs ts')"

section \<open>Statements on tags and transaction\_tags\<close>

text \<open>
  \<^verbatim>\<open>INSERT INTO tags (user_id, name, display_name, color, icon, description)\<close>, the
  statement behind the tag-creation interface: \<^verbatim>\<open>id\<close> and \<^verbatim>\<open>usage_count\<close>
  take their defaults, \<^verbatim>\<open>UNIQUE(user_id, name)\<close> is checked.
\<close>

definition insert_tag ::
  "uuid \<Rightarrow> string \<Rightarrow> string \<Rightarrow> string option \<Rightarrow> string option \<Rightarrow> string option \<Rightarrow> db
     \<Rightarrow> sql_error + db" where
  "insert_tag u n dn c i d s =
     (case varchar 100 n of Inl e \<Rightarrow> Inl e | Inr n' \<Rightarrow>
      case varchar 100 dn of Inl e \<Rightarrow> Inl e | Inr dn' \<Rightarrow>
      case varchar_opt 7 c of Inl e \<Rightarrow> Inl e | Inr c' \<Rightarrow>
      case varchar_opt 50 i of Inl e \<Rightarrow> Inl e | Inr i' \<Rightarrow>
      if \<exists>t \<in> set (tags s). tag_user_id t = u \<and> tag_name t = n' then Inl unique_violation
      else Inr (s\<lparr>tags := tags s @
        [\<lparr>tag_id = uuid_generate (map tag_id (tags s)), tag_user_id = u, tag_name = n',
          tag_display_name = dn', tag_color = c', tag_icon = i', tag_description = d,
          usage_count = Some 0\<rparr>]\<rparr>))"

text \<open>
  \<^verbatim>\<open>INSERT INTO transaction_tags (transaction_id, tag_id, source, confidence)\<close>:
  the column types, \<^verbatim>\<open>UNIQUE(transaction_id, tag_id)\<close> and the two foreign keys are
  checked, the row is stored, and the trigger runs for it.
\<close>

definition insert_transaction_tag ::
  "uuid \<Rightarrow> uuid \<Rightarrow> string option \<Rightarrow> decimal option \<Rightarrow> db \<Rightarrow> sql_error + db" where
  "insert_transaction_tag x g src conf s =
     (case varchar_opt 50 src of Inl e \<Rightarrow> Inl e | Inr src' \<Rightarrow>
      case numeric_opt 3 2 conf of Inl e \<Rightarrow> Inl e | Inr conf' \<Rightarrow>
      if \<exists>l \<in> set (transaction_tags s). tt_transaction_id l = x \<and> tt_tag_id l = g
      then Inl unique_violation
      else if x \<notin> txn_id ` set (transactions s) then Inl foreign_key_violation
      else if g \<notin> tag_id ` set (tags s) then Inl foreign_key_violation
      else
        (let new = \<lparr>tt_id = uuid_generate (map tt_id (transaction_tags s)),
                    tt_transaction_id = x, tt_tag_id = g, tt_source = src',
                    tt_confidence = conf'\<rparr>
         in case trigger_update_tag_usage TG_INSERT [new] (tags s) of
              Inl e \<Rightarrow> Inl e
            | Inr ts' \<Rightarrow> Inr (s\<lparr>tags := ts', transaction_tags := transaction_tags s @ [new]\<rparr>)))"

text \<open>
  \<^verbatim>\<open>DELETE FROM transaction_tags WHERE p\<close>: the rows satisfying \<open>p\<close> are removed and
  the trigger runs for each of them.
\<close>

definition delete_transaction_tags :: "(transaction_tag_row \<Rightarrow> bool) \<Rightarrow> db \<Rightarrow> sql_error + db" where
  "delete_transaction_tags p s =
     (case trigger_update_tag_usage TG_DELETE (filter p (transaction_tags s)) (tags s) of
        Inl e \<Rightarrow> Inl e
      | Inr ts' \<Rightarrow>
          Inr (s\<lparr>tags := ts', transaction_tags := filter (\<lambda>l. \<not> p l) (transaction_tags s)\<rparr>))"

section \<open>Statements on import\_batches and transactions\<close>

definition too_long :: "nat \<Rightarrow> string option \<Rightarrow> bool" where
  "too_long n v = (case v of None \<Rightarrow> False | Some w \<Rightarrow> n < length w)"

definition out_of_range :: "nat \<Rightarrow> numeric_value option \<Rightarrow> bool" where
  "out_of_range p v = (case v of Some (Number u) \<Rightarrow> \<not> \<bar>u\<bar> < 10 ^ p | _ \<Rightarrow> False)"

definition int4_out_of_range :: "int option \<Rightarrow> bool" where
  "int4_out_of_range v =
     (case v of None \<Rightarrow> False | Some u \<Rightarrow> u < - 2147483648 \<or> 2147483647 < u)"

text \<open>
  \<^verbatim>\<open>INSERT INTO import_batches\<close>: the row is given as it is to be stored (numeric
  columns in stored units), so a value that does not fit its column raises; \<^verbatim>\<open>id\<close>
  takes its default, and \<^verbatim>\<open>UNIQUE(user_id, file_hash)\<close> is checked.
\<close>

definition insert_import_batch :: "import_batch_row \<Rightarrow> db \<Rightarrow> sql_error + db" where
  "insert_import_batch b s =
     (if 500 < length (file_name b) \<or> 64 < length (file_hash b)
         \<or> too_long 50 (batch_account_number b) \<or> too_long 100 (account_type b)
         \<or> too_long 3 (batch_currency b) \<or> too_long 50 (import_status b)
      then Inl string_data_right_truncation
      else if int4_out_of_range (transactions_imported b)
         \<or> int4_out_of_range (duplicates_skipped b)
      then Inl numeric_value_out_of_range
      else if \<exists>c \<in> set (import_batches s).
                batch_user_id c = batch_user_id b \<and> file_hash c = file_hash b
      then Inl unique_violation
      else Inr (s\<lparr>import_batches := import_batches s @
                  [b\<lparr>batch_id := uuid_generate (map batch_id (import_batches s))\<rparr>]\<rparr>))"

text \<open>
  \<^verbatim>\<open>INSERT INTO transactions\<close>, with the row given as it is to be stored, its
  two timestamps included:
  \<^verbatim>\<open>transaction_hash\<close> is \<^verbatim>\<open>UNIQUE\<close> over the whole table, and
  \<^verbatim>\<open>import_batch_id\<close> references \<^verbatim>\<open>import_batches\<close>. The tables \<^verbatim>\<open>merchants\<close>
  and \<^verbatim>\<open>stores\<close> are not part of this model, so the foreign keys of
  \<^verbatim>\<open>merchant_id\<close> and \<^verbatim>\<open>store_id\<close> are not checked.
\<close>

definition insert_transaction :: "transaction_row \<Rightarrow> db \<Rightarrow> sql_error + db" where
  "insert_transaction r s =
     (if 64 < length (transaction_hash r) \<or> 100 < length (operation_type r)
         \<or> too_long 500 (sender_recipient r) \<or> too_long 50 (account_number r)
         \<or> too_long 3 (currency r) \<or> too_long 255 (normalized_merchant_name r)
         \<or> too_long 100 (store_identifier r) \<or> too_long 255 (location_extracted r)
      then Inl string_data_right_truncation
      else if out_of_range 15 (Some (amount r)) \<or> out_of_range 15 (balance_after r)
         \<or> out_of_range 3 (merchant_confidence r)
      then Inl numeric_value_out_of_range
      else if transaction_hash r \<in> transaction_hash ` set (transactions s)
      then Inl unique_violation
      else if (case import_batch_id r of
                 None \<Rightarrow> False
               | Some b \<Rightarrow> b \<notin> batch_id ` set (import_batches s))
      then Inl foreign_key_violation
      else Inr (s\<lparr>transactions := transactions s @
                  [r\<lparr>txn_id := uuid_generate (map txn_id (transactions s))\<rparr>]\<rparr>))"

section \<open>Tag Ledger\<close>

definition linked :: "db \<Rightarrow> uuid \<Rightarrow> uuid \<Rightarrow> bool" where
  "linked s x g = (\<exists>l \<in> set (transaction_tags s). tt_transaction_id l = x \<and> tt_tag_id l = g)"

text \<open>
  Modelled from the spec: the Tag Ledger entry points \<^verbatim>\<open>applyTag\<close> and
  \<^verbatim>\<open>removeTag\<close> belong to the backend, which is not among the sources. Section 4.5:
  \<^verbatim>\<open>applyTag(transaction, tag, source, confidence)\<close> creates the link if absent or is a
  no-op if present; \<^verbatim>\<open>removeTag(transaction, tag)\<close> deletes the link if present or is a
  no-op if absent. Creating and deleting are the statements of the schema above, so the
  usage counter moves through the trigger.
\<close>

definition applyTag :: "uuid \<Rightarrow> uuid \<Rightarrow> string \<Rightarrow> decimal option \<Rightarrow> db \<Rightarrow> sql_error + db" where
  "applyTag x g src conf s =
     (if linked s x g then Inr s else insert_transaction_tag x g (Some src) conf s)"

text \<open>
  Modelled from the spec: \<^verbatim>\<open>removeTag\<close> of section 4.5, as described above; the
  deletion is the \<^verbatim>\<open>DELETE\<close> statement of the schema for that pair.
\<close>

definition removeTag :: "uuid \<Rightarrow> uuid \<Rightarrow> db \<Rightarrow> sql_error + db" where
  "removeTag x g s =
     (if linked s x g
      then delete_transaction_tags (\<lambda>l. tt_transaction_id l = x \<and> tt_tag_id l = g) s
      else Inr s)"

section \<open>Sequences of operations\<close>

datatype db_op =
    CreateTag uuid string string "string option" "string option" "string option"
  | InsertBatch import_batch_row
  | InsertTransaction transaction_row
  | InsertLink uuid uuid "string option" "decimal option"
  | DeleteLinks "transaction_tag_row \<Rightarrow> bool"
  | ApplyTag uuid uuid string "decimal option"
  | RemoveTag uuid uuid

fun statement :: "db_op \<Rightarrow> db \<Rightarrow> sql_error + db" where
  "statement (CreateTag u n dn c i d) s = insert_tag u n dn c i d s"
| "statement (InsertBatch b) s = insert_import_batch b s"
| "statement (InsertTransaction r) s = insert_transaction r s"
| "statement (InsertLink x g src conf) s = insert_transaction_tag x g src conf s"
| "statement (DeleteLinks p) s = delete_transaction_tags p s"
| "statement (ApplyTag x g src conf) s = applyTag x g src conf s"
| "statement (RemoveTag x g) s = removeTag x g s"

text \<open>An operation that raises is rolled back: the database stays as it was.\<close>

definition exec :: "db_op \<Rightarrow> db \<Rightarrow> db" where
  "exec opn s = (case statement opn s of Inl e \<Rightarrow> s | Inr s' \<Rightarrow> s')"

definition run :: "db_op list \<Rightarrow> db \<Rightarrow> db" where
  "run ops s = fold exec ops s"

section \<open>Invariants of the tag tables\<close>

definition link_count :: "db \<Rightarrow> uuid \<Rightarrow> nat" where
  "link_count s g = length (filter (\<lambda>l. tt_tag_id l = g) (transaction_tags s))"

definition usage_inv :: "db \<Rightarrow> bool" where
  "usage_inv s = (\<forall>t \<in> set (tags s). usage_count t = Some (int (link_count s (tag_id t))))"

definition links_reference_tags :: "db \<Rightarrow> bool" where
  "links_reference_tags s = (\<forall>l \<in> set (transaction_tags s). tt_tag_id l \<in> tag_id ` set (tags s))"

definition links_unique :: "db \<Rightarrow> bool" where
  "links_unique s = distinct (map (\<lambda>l. (tt_transaction_id l, tt_tag_id l)) (transaction_tags s))"

definition links_of :: "db \<Rightarrow> uuid \<Rightarrow> uuid \<Rightarrow> transaction_tag_row list" where
  "links_of s x g = filter (\<lambda>l. tt_transaction_id l = x \<and> tt_tag_id l = g) (transaction_tags s)"

text \<open>
  The provenance values listed for \<^verbatim>\<open>transaction_tags.source\<close>; the automatic ones are
  the three that are not \<^verbatim>\<open>manual\<close>. A stored confidence \<open>Number h\<close> stands for
  \<open>h / 100\<close>; it lies in the interval [0,1] when \<open>0 \<le> h \<le> 100\<close>, and neither
  \<^verbatim>\<open>NULL\<close> nor \<^verbatim>\<open>NaN\<close> does.
\<close>

definition automatic_provenance :: "string option \<Rightarrow> bool" where
  "automatic_provenance src =
     (src = Some ''auto_rule'' \<or> src = Some ''auto_merchant'' \<or> src = Some ''auto_nlp'')"

definition in_unit_interval :: "numeric_value option \<Rightarrow> bool" where
  "in_unit_interval c = (case c of Some (Number h) \<Rightarrow> 0 \<le> h \<and> h \<le> 100 | _ \<Rightarrow> False)"

definition automatic_confidence_in_unit_interval :: "db \<Rightarrow> bool" where
  "automatic_confidence_in_unit_interval s =
     (\<forall>l \<in> set (transaction_tags s).
        automatic_provenance (tt_source l) \<longrightarrow> in_unit_interval (tt_confidence l))"

text \<open>
  The provenance and the confidence that an operation hands to the database, and the
  operations that hand a confidence between 0 and 1 whenever they hand an automatic
  provenance.
\<close>

fun op_source :: "db_op \<Rightarrow> string option" where
  "op_source (InsertLink x g src conf) = src"
| "op_source (ApplyTag x g src conf) = Some src"
| "op_source opn = None"

fun op_confidence :: "db_op \<Rightarrow> decimal option" where
  "op_confidence (InsertLink x g src conf) = conf"
| "op_confidence (ApplyTag x g src conf) = conf"
| "op_confidence opn = None"

fun decimal_in_unit_interval :: "decimal option \<Rightarrow> bool" where
  "decimal_in_unit_interval (Some (Decimal m e)) = (0 \<le> m \<and> m \<le> 10 ^ e)"
| "decimal_in_unit_interval c = False"

definition hands_unit_confidence :: "db_op \<Rightarrow> bool" where
  "hands_unit_confidence opn =
     (automatic_provenance (op_source opn) \<longrightarrow> decimal_in_unit_interval (op_confidence opn))"

definition transaction_hashes_unique :: "db \<Rightarrow> bool" where
  "transaction_hashes_unique s = distinct (map transaction_hash (transactions s))"

definition batches_unique :: "db \<Rightarrow> bool" where
  "batches_unique s = distinct (map (\<lambda>b. (batch_user_id b, file_hash b)) (import_batches s))"

section \<open>Transaction content hash\<close>

text \<open>
  Modelled from the spec: the Transaction Normalizer and its hash function belong to the
  backend, which is not among the sources; only the column \<^verbatim>\<open>transaction_hash\<close> and its
  comment (a SHA256 hash for duplicate detection) are. Sections 3 and 4.2: the content hash
  is computed from the immutable identity fields (date, operation type, title, amount,
  counterparty/account). Both date columns and both counterparty columns are taken as
  identity fields; the digest is a parameter.
\<close>

type_synonym identity =
  "date \<times> date \<times> string \<times> string \<times> numeric_value \<times> string option \<times> string option"

definition identity_fields :: "transaction_row \<Rightarrow> identity" where
  "identity_fields r =
     (booking_date r, transaction_date r, operation_type r, title r, amount r,
      sender_recipient r, account_number r)"

text \<open>
  Modelled from the spec: the content hash of section 4.2, a message digest of the identity
  fields; the digest function is the parameter \<open>digest\<close>.
\<close>

definition content_hash :: "(identity \<Rightarrow> string) \<Rightarrow> transaction_row \<Rightarrow> string" where
  "content_hash digest r = digest (identity_fields r)"

section \<open>Import Orchestrator\<close>

datatype row_error = MalformedAmount | UnparseableDate

type_synonym parsed_row = "row_error + transaction_row"

text \<open>
  The Statement Parser and the Normalizer are parameters of the orchestrator:
  \<open>file_digest\<close> is the whole-file hash, \<open>parse_statement\<close> yields \<open>None\<close> on a
  \<^verbatim>\<open>FormatError\<close> and otherwise one entry per row, either a \<^verbatim>\<open>RowError\<close> or the
  draft transaction with its content hash.
\<close>

record importer =
  file_digest :: "string \<Rightarrow> string"
  parse_statement :: "string \<Rightarrow> parsed_row list option"

definition find_batch :: "db \<Rightarrow> uuid \<Rightarrow> string \<Rightarrow> import_batch_row option" where
  "find_batch s u h = find (\<lambda>b. batch_user_id b = u \<and> file_hash b = h) (import_batches s)"

text \<open>
  Modelled from the spec: the Duplicate Filter of section 4.2 (backend, not among the
  sources). The hash of the draft is checked against the transactions stored for the owning
  identity: if present, the duplicate counter is incremented and the row discarded without
  error; if absent, the row is persisted and the imported counter incremented. Persisting
  is the \<^verbatim>\<open>INSERT\<close> of the schema; its failure is the unexpected persistence failure
  of section 7.
\<close>

definition process_row ::
  "uuid \<Rightarrow> uuid \<Rightarrow> transaction_row \<Rightarrow> db \<times> int \<times> int \<Rightarrow> sql_error + db \<times> int \<times> int" where
  "process_row u b draft acc =
     (case acc of (s, imported, duplicates) \<Rightarrow>
        if \<exists>r \<in> set (transactions s).
             txn_user_id r = u \<and> transaction_hash r = transaction_hash draft
        then Inr (s, imported, duplicates + 1)
        else
          (case insert_transaction (draft\<lparr>txn_user_id := u, import_batch_id := Some b\<rparr>) s of
             Inl e \<Rightarrow> Inl e
           | Inr s' \<Rightarrow> Inr (s', imported + 1, duplicates)))"

text \<open>
  Modelled from the spec: the row loop of the orchestrator (sections 2 and 7). Rows are
  processed in order; a \<^verbatim>\<open>RowError\<close> is counted and skipped; a persistence failure stops
  the loop with the counts of the work completed so far.
\<close>

fun import_rows ::
  "uuid \<Rightarrow> uuid \<Rightarrow> parsed_row list \<Rightarrow> db \<times> int \<times> int \<Rightarrow> int
     \<Rightarrow> (db \<times> int \<times> int) \<times> int \<times> sql_error option" where
  "import_rows u b [] acc errors = (acc, errors, None)"
| "import_rows u b (Inl e # rows) acc errors = import_rows u b rows acc (errors + 1)"
| "import_rows u b (Inr draft # rows) acc errors =
     (case process_row u b draft acc of
        Inl e \<Rightarrow> (acc, errors, Some e)
      | Inr acc' \<Rightarrow> import_rows u b rows acc' errors)"

text \<open>
  Modelled from the spec: the orchestrator mutates the batch it created (section 3); it
  closes it with \<^verbatim>\<open>UPDATE import_batches SET transactions_imported, duplicates_skipped,
  import_status, error_message WHERE id = b\<close>, checked against the column types of the
  schema.
\<close>

definition update_import_batch ::
  "uuid \<Rightarrow> int \<Rightarrow> int \<Rightarrow> string \<Rightarrow> string option \<Rightarrow> db \<Rightarrow> sql_error + db" where
  "update_import_batch b imported duplicates status msg s =
     (if 50 < length status then Inl string_data_right_truncation
      else if int4_out_of_range (Some imported) \<or> int4_out_of_range (Some duplicates)
      then Inl numeric_value_out_of_range
      else Inr (s\<lparr>import_batches :=
        map (\<lambda>c. if batch_id c = b
                  then c\<lparr>transactions_imported := Some imported,
                         duplicates_skipped := Some duplicates,
                         import_status := Some status, error_message := msg\<rparr>
                  else c) (import_batches s)\<rparr>))"

text \<open>
  Modelled from the spec: closing a batch and reading back its row, which is the batch
  result that the orchestrator returns (section 6).
\<close>

definition close_batch ::
  "uuid \<Rightarrow> int \<Rightarrow> int \<Rightarrow> string \<Rightarrow> string option \<Rightarrow> db \<Rightarrow> (sql_error + import_batch_row) \<times> db" where
  "close_batch b imported duplicates status msg s =
     (case update_import_batch b imported duplicates status msg s of
        Inl e \<Rightarrow> (Inl e, s)
      | Inr s' \<Rightarrow>
          (case find (\<lambda>c. batch_id c = b) (import_batches s') of
             None \<Rightarrow> (Inl foreign_key_violation, s')
           | Some c \<Rightarrow> (Inr c, s')))"

text \<open>
  Modelled from the spec: the batch as it is created at upload start (section 3), with the
  defaults of the schema for the counters, the currency and the status.
\<close>

definition new_batch :: "uuid \<Rightarrow> string \<Rightarrow> string \<Rightarrow> string \<Rightarrow> import_batch_row" where
  "new_batch u name h content =
     \<lparr>batch_id = 0, batch_user_id = u, file_name = name, file_hash = h,
      batch_account_number = None, account_type = None, batch_currency = Some ''PLN'',
      period_start = None, period_end = None, raw_content = Some content,
      transactions_imported = Some 0, duplicates_skipped = Some 0,
      import_status = Some ''processing'', error_message = None\<rparr>"

text \<open>
  Modelled from the spec: the Import Orchestrator (backend, not among the sources).
  Sections 3, 4.2, 7 and 8: a file whose whole-file hash is already recorded for the
  identity is a \<^verbatim>\<open>DuplicateFile\<close>; the batch short-circuits before row-level work as a
  no-op success with zero new rows, and its result reports \<^verbatim>\<open>transactions_imported = 0\<close>
  and \<^verbatim>\<open>duplicates_skipped\<close> equal to the previous imported count. Otherwise a batch is
  created in status \<^verbatim>\<open>processing\<close>; a \<^verbatim>\<open>FormatError\<close> or a persistence failure closes it
  as \<^verbatim>\<open>failed\<close>, and a finished row loop closes it as \<^verbatim>\<open>completed\<close> with its
  counters.
\<close>

definition upload ::
  "importer \<Rightarrow> uuid \<Rightarrow> string \<Rightarrow> string \<Rightarrow> db \<Rightarrow> (sql_error + import_batch_row) \<times> db" where
  "upload P u name content s =
     (let h = file_digest P content in
      case find_batch s u h of
        Some prev \<Rightarrow>
          (Inr (prev\<lparr>transactions_imported := Some 0,
                     duplicates_skipped := transactions_imported prev,
                     import_status := Some ''completed''\<rparr>), s)
      | None \<Rightarrow>
          (case insert_import_batch (new_batch u name h content) s of
             Inl e \<Rightarrow> (Inl e, s)
           | Inr s0 \<Rightarrow>
               (let b = uuid_generate (map batch_id (import_batches s)) in
                case parse_statement P content of
                  None \<Rightarrow> close_batch b 0 0 ''failed'' (Some ''FormatError'') s0
                | Some rows \<Rightarrow>
                    (case import_rows u b rows (s0, 0, 0) 0 of
                       ((s1, imported, duplicates), errors, Some e) \<Rightarrow>
                         close_batch b imported duplicates ''failed''
                           (Some ''persistence failure'') s1
                     | ((s1, imported, duplicates), errors, None) \<Rightarrow>
                         close_batch b imported duplicates ''completed''
                           (if errors = 0 then None else Some ''rows skipped'') s1))))"







section \<open>Merchant enrichment\<close>

text \<open>
  The trigger function \<^verbatim>\<open>update_updated_at_column()\<close>, which
  \<^verbatim>\<open>update_transactions_updated_at\<close> runs \<^verbatim>\<open>BEFORE UPDATE ON transactions FOR EACH
  ROW\<close>: the row that is about to be stored gets the time of the statement.
\<close>

definition update_updated_at_column :: "timestamp \<Rightarrow> transaction_row \<Rightarrow> transaction_row" where
  "update_updated_at_column now new = new\<lparr>updated_at := Some now\<rparr>"

text \<open>
  Migration 002 fills the new column from the title, only where it is still empty:
  \<^verbatim>\<open>UPDATE transactions SET raw_merchant_text = title WHERE raw_merchant_text IS NULL\<close>.
  The trigger runs for every row that the statement updates.
\<close>

definition populate_raw_merchant_text :: "timestamp \<Rightarrow> db \<Rightarrow> db" where
  "populate_raw_merchant_text now s =
     s\<lparr>transactions :=
        map (\<lambda>r. if raw_merchant_text r = None
                  then update_updated_at_column now (r\<lparr>raw_merchant_text := Some (title r)\<rparr>)
                  else r) (transactions s)\<rparr>"

record enrichment =
  enr_merchant :: "uuid option"
  enr_normalized_name :: string
  enr_store :: "uuid option"
  enr_location :: "string option"
  enr_confidence :: numeric_value

definition fill :: "'a option \<Rightarrow> 'a option \<Rightarrow> 'a option" where
  "fill old new = (case old of None \<Rightarrow> new | Some v \<Rightarrow> Some v)"

text \<open>
  Modelled from the spec: the write-back of the Merchant Extractor (backend, not among the
  sources). Section 4.3: the enrichment result is \<open>{merchant reference | none, normalized
  name, store reference | none, extracted location | none, confidence}\<close>, and the step is
  purely additive: it only fills enrichment fields that were empty before.
\<close>

definition apply_enrichment :: "enrichment \<Rightarrow> transaction_row \<Rightarrow> transaction_row" where
  "apply_enrichment e r =
     r\<lparr>merchant_id := fill (merchant_id r) (enr_merchant e),
       normalized_merchant_name := fill (normalized_merchant_name r) (Some (enr_normalized_name e)),
       store_id := fill (store_id r) (enr_store e),
       location_extracted := fill (location_extracted r) (enr_location e),
       merchant_confidence := fill (merchant_confidence r) (Some (enr_confidence e))\<rparr>"

text \<open>
  Modelled from the spec: enrichment of one persisted transaction, chosen by its id. The
  enrichment columns are columns of \<^verbatim>\<open>transactions\<close>, so the write-back is an
  \<^verbatim>\<open>UPDATE transactions SET ... WHERE id = x\<close>, and the trigger of the schema runs for
  the row it updates.
\<close>

definition enrich_transaction :: "timestamp \<Rightarrow> uuid \<Rightarrow> enrichment \<Rightarrow> db \<Rightarrow> db" where
  "enrich_transaction now x e s =
     s\<lparr>transactions :=
        map (\<lambda>r. if txn_id r = x then update_updated_at_column now (apply_enrichment e r)
                  else r) (transactions s)\<rparr>"

text \<open>
  Modelled from the spec: the enrichment statements in a sequence, each at its own time:
  the back-fill of migration 002 and the write-back of an enrichment result.
\<close>

datatype enrichment_op =
  PopulateRawMerchantText timestamp
| EnrichTransaction timestamp uuid enrichment

fun enrichment_statement :: "enrichment_op \<Rightarrow> db \<Rightarrow> db" where
  "enrichment_statement (PopulateRawMerchantText now) s = populate_raw_merchant_text now s"
| "enrichment_statement (EnrichTransaction now x e) s = enrich_transaction now x e s"

definition enrichments :: "enrichment_op list \<Rightarrow> db \<Rightarrow> db" where
  "enrichments ops s = fold enrichment_statement ops s"

text \<open>
  The enrichment columns of a transaction are the three under \<^verbatim>\<open>-- Enrichment fields\<close>
  in the table definition and the four that migration 002 adds. \<open>kept old new\<close> says that
  a column that held a value still holds that value; \<open>other_fields\<close> blanks the enrichment
  columns, so that two rows have the same \<open>other_fields\<close> when they agree on every column
  that is not an enrichment column.
\<close>

definition kept :: "'a option \<Rightarrow> 'a option \<Rightarrow> bool" where
  "kept old new = (old \<noteq> None \<longrightarrow> new = old)"

definition enrichment_fields_kept :: "transaction_row \<Rightarrow> transaction_row \<Rightarrow> bool" where
  "enrichment_fields_kept r r' =
     (kept (merchant_id r) (merchant_id r')
      \<and> kept (normalized_merchant_name r) (normalized_merchant_name r')
      \<and> kept (merchant_confidence r) (merchant_confidence r')
      \<and> kept (store_identifier r) (store_identifier r')
      \<and> kept (location_extracted r) (location_extracted r')
      \<and> kept (raw_merchant_text r) (raw_merchant_text r')
      \<and> kept (store_id r) (store_id r'))"

definition other_fields :: "transaction_row \<Rightarrow> transaction_row" where
  "other_fields r =
     r\<lparr>merchant_id := None, normalized_merchant_name := None, merchant_confidence := None,
       store_identifier := None, location_extracted := None, raw_merchant_text := None,
       store_id := None\<rparr>"

text \<open>
  C9 as it is claimed, for a transaction \<open>r\<close> that enrichment turns into \<open>r'\<close>: no
  enrichment field that held a value is overwritten, and all other fields are unchanged.
\<close>

definition purely_additive :: "transaction_row \<Rightarrow> transaction_row \<Rightarrow> bool" where
  "purely_additive r r' = (enrichment_fields_kept r r' \<and> other_fields r' = other_fields r)"

text \<open>
  The same with \<^verbatim>\<open>updated_at\<close> set aside: all other fields but \<^verbatim>\<open>updated_at\<close> are
  unchanged.
\<close>

definition additive_up_to_updated_at :: "transaction_row \<Rightarrow> transaction_row \<Rightarrow> bool" where
  "additive_up_to_updated_at r r' =
     (enrichment_fields_kept r r'
      \<and> other_fields (r'\<lparr>updated_at := updated_at r\<rparr>) = other_fields r)"

section \<open>Auto-Tagging Engine: user rules\<close>

text \<open>
  The audit table \<^verbatim>\<open>tagging_rule_applications\<close> of the schema: besides its primary key
  it has the two references and no uniqueness constraint. The statement
  \<^verbatim>\<open>INSERT INTO tagging_rule_applications (rule_id, transaction_id)\<close> appends a row; the
  rules and the transaction are handed to the engine, so the two foreign keys are not
  checked here.
\<close>

record rule_application_row =
  app_id :: uuid
  app_rule_id :: uuid
  app_transaction_id :: uuid

definition insert_rule_application ::
  "uuid \<Rightarrow> uuid \<Rightarrow> rule_application_row list \<Rightarrow> rule_application_row list" where
  "insert_rule_application r x apps =
     apps @ [\<lparr>app_id = uuid_generate (map app_id apps), app_rule_id = r,
              app_transaction_id = x\<rparr>]"

definition recorded :: "rule_application_row list \<Rightarrow> uuid \<Rightarrow> uuid \<Rightarrow> bool" where
  "recorded apps r x = (\<exists>a \<in> set apps. app_rule_id a = r \<and> app_transaction_id a = x)"

text \<open>
  Modelled from the spec: the user-rule source of the Auto-Tagging Engine (backend, not
  among the sources). Section 4.4: rules are evaluated in descending priority order; on
  match a rule proposes each of its tag ids at its configured confidence and records an
  audit entry keyed by (rule, transaction), so that a rule is evaluated at most once per
  transaction even if re-run. Section 7: a malformed condition skips that rule, the other
  rules are still evaluated. The condition language is a parameter: \<open>ev c x\<close> is
  \<open>None\<close> for a malformed condition. The result carries the proposals, the ids of the
  rules that were evaluated, and the audit table.
\<close>

record 'c tagging_rule =
  rule_id :: uuid
  conditions :: 'c
  tag_ids :: "uuid list"
  rule_priority :: int
  rule_confidence :: int

datatype rationale = UserRule uuid

type_synonym proposal = "uuid \<times> int \<times> rationale"

fun evaluate_rules ::
  "('c \<Rightarrow> transaction_row \<Rightarrow> bool option) \<Rightarrow> 'c tagging_rule list \<Rightarrow> transaction_row
     \<Rightarrow> rule_application_row list \<Rightarrow> proposal list \<times> uuid list \<times> rule_application_row list" where
  "evaluate_rules ev [] x apps = ([], [], apps)"
| "evaluate_rules ev (r # rs) x apps =
     (if recorded apps (rule_id r) (txn_id x) then evaluate_rules ev rs x apps
      else if ev (conditions r) x = Some True then
        (case evaluate_rules ev rs x (insert_rule_application (rule_id r) (txn_id x) apps) of
           (ps, es, apps') \<Rightarrow>
             (map (\<lambda>g. (g, rule_confidence r, UserRule (rule_id r))) (tag_ids r) @ ps,
              rule_id r # es, apps'))
      else
        (case evaluate_rules ev rs x apps of
           (ps, es, apps') \<Rightarrow> (ps, rule_id r # es, apps')))"

text \<open>
  Modelled from the spec: the user-rule pass over a rule set, in descending priority order.
\<close>

definition user_rules ::
  "('c \<Rightarrow> transaction_row \<Rightarrow> bool option) \<Rightarrow> 'c tagging_rule list \<Rightarrow> transaction_row
     \<Rightarrow> rule_application_row list \<Rightarrow> proposal list \<times> uuid list \<times> rule_application_row list" where
  "user_rules ev rules x apps =
     evaluate_rules ev (sort_key (\<lambda>r. - rule_priority r) rules) x apps"

text \<open>
  Modelled from the spec: repeated runs of the engine, each with its own rule set and
  transaction; every run reports the transaction, the proposals and the evaluated rules,
  and hands its audit table to the next run.
\<close>

fun engine_runs ::
  "('c \<Rightarrow> transaction_row \<Rightarrow> bool option) \<Rightarrow> ('c tagging_rule list \<times> transaction_row) list
     \<Rightarrow> rule_application_row list
     \<Rightarrow> (uuid \<times> proposal list \<times> uuid list) list \<times> rule_application_row list" where
  "engine_runs ev [] apps = ([], apps)"
| "engine_runs ev ((rules, x) # jobs) apps =
     (case user_rules ev rules x apps of
        (ps, es, apps') \<Rightarrow>
          (case engine_runs ev jobs apps' of
             (outs, apps'') \<Rightarrow> ((txn_id x, ps, es) # outs, apps'')))"

section \<open>Tag creation form (TagsPage.tsx)\<close>

text \<open>
  A JavaScript string is a sequence of UTF-16 code units. \<open>js_whitespace\<close> is the set
  that both \<^verbatim>\<open>String.prototype.trim\<close> and the regular expression class \<^verbatim>\<open>\s\<close>
  use (white space and line terminators). \<^verbatim>\<open>toLowerCase\<close> is the runtime's Unicode
  lower-casing and is a parameter of the handler.
\<close>

type_synonym js_string = "16 word list"

definition js_whitespace :: "16 word \<Rightarrow> bool" where
  "js_whitespace c =
     (c = 0x09 \<or> c = 0x0A \<or> c = 0x0B \<or> c = 0x0C \<or> c = 0x0D \<or> c = 0x20 \<or> c = 0xA0
      \<or> c = 0x1680 \<or> (0x2000 \<le> c \<and> c \<le> 0x200A) \<or> c = 0x2028 \<or> c = 0x2029
      \<or> c = 0x202F \<or> c = 0x205F \<or> c = 0x3000 \<or> c = 0xFEFF)"

definition js_trim :: "js_string \<Rightarrow> js_string" where
  "js_trim s = rev (dropWhile js_whitespace (rev (dropWhile js_whitespace s)))"

text \<open>\<^verbatim>\<open>s.replace(/\s+/g, '-')\<close>: every maximal match of \<^verbatim>\<open>\s+\<close>, left to right.\<close>

function replace_whitespace :: "js_string \<Rightarrow> js_string" where
  "replace_whitespace [] = []"
| "replace_whitespace (c # cs) =
     (if js_whitespace c then 0x2D # replace_whitespace (dropWhile js_whitespace cs)
      else c # replace_whitespace cs)"
  by pat_completeness auto
termination
  by (relation "measure length") (auto simp: less_Suc_eq_le length_dropWhile_le)

record tags_page =
  newTagName :: js_string
  newTagDisplayName :: js_string
  newTagColor :: js_string
  newTagDescription :: js_string

record create_tag_request =
  req_name :: js_string
  req_display_name :: js_string
  req_color :: js_string
  req_description :: "js_string option"

text \<open>
  \<^verbatim>\<open>handleCreateTag\<close>: \<open>None\<close> is the early return, \<open>Some\<close> the argument of
  \<^verbatim>\<open>createTagMutation.mutate\<close>. The empty string is the only falsy string, and
  \<^verbatim>\<open>undefined\<close> is \<open>None\<close>.
\<close>

definition handleCreateTag ::
  "(js_string \<Rightarrow> js_string) \<Rightarrow> tags_page \<Rightarrow> create_tag_request option" where
  "handleCreateTag toLowerCase st =
     (if js_trim (newTagName st) = [] then None
      else Some
        \<lparr>req_name = replace_whitespace (toLowerCase (newTagName st)),
         req_display_name =
           (if newTagDisplayName st \<noteq> [] then newTagDisplayName st else newTagName st),
         req_color = newTagColor st,
         req_description =
           (if newTagDescription st \<noteq> [] then Some (newTagDescription st) else None)\<rparr>)"

text \<open>
  The claim's own words, for comparison with the handler: the input is blank when it has
  nothing but white space, and the tag name is the lower-cased input cut into its maximal
  runs of white space and of other characters, each white-space run replaced by one hyphen.
\<close>

definition blank :: "js_string \<Rightarrow> bool" where
  "blank s = (\<forall>c \<in> set s. js_whitespace c)"

function runs :: "('a \<Rightarrow> bool) \<Rightarrow> 'a list \<Rightarrow> 'a list list" where
  "runs P [] = []"
| "runs P (x # xs) =
     (x # takeWhile (\<lambda>y. P y = P x) xs) # runs P (dropWhile (\<lambda>y. P y = P x) xs)"
  by pat_completeness auto
termination
  by (relation "measure (\<lambda>(P, xs). length xs)") (auto simp: less_Suc_eq_le length_dropWhile_le)

definition hyphenate_run :: "js_string \<Rightarrow> js_string" where
  "hyphenate_run r = (case r of [] \<Rightarrow> [] | c # cs \<Rightarrow> if js_whitespace c then [0x2D] else r)"

definition hyphenated :: "js_string \<Rightarrow> js_string" where
  "hyphenated s = concat (map hyphenate_run (runs js_whitespace s))"

section \<open>Example data\<close>

definition example_transaction :: transaction_row where
  "example_transaction =
     \<lparr>txn_id = 1, txn_user_id = 1, import_batch_id = None, transaction_hash = ''a3f1'',
      booking_date = (2025, 8, 1), transaction_date = (2025, 8, 1),
      operation_type = ''ZAKUP PRZY UZYCIU KARTY'', title = ''ZABKA 1234 WARSZAWA'',
      sender_recipient = None, account_number = None, amount = Number (- 1643),
      balance_after = Some (Number 100000), currency = Some ''PLN'', merchant_id = None,
      normalized_merchant_name = None, merchant_confidence = None, txn_notes = None,
      is_hidden = Some False, store_identifier = None, location_extracted = None,
      raw_merchant_text = None, store_id = None, created_at = Some 100,
      updated_at = Some 100\<rparr>"

definition example_tag :: "uuid \<Rightarrow> string \<Rightarrow> tag_row" where
  "example_tag g n =
     \<lparr>tag_id = g, tag_user_id = 1, tag_name = n, tag_display_name = n, tag_color = None,
      tag_icon = None, tag_description = None, usage_count = Some 0\<rparr>"

definition example_db :: db where
  "example_db =
     \<lparr>import_batches = [], transactions = [example_transaction],
      tags = [example_tag 1 ''grocery'', example_tag 2 ''expense''], transaction_tags = []\<rparr>"

definition example_importer :: importer where
  "example_importer =
     \<lparr>file_digest = take 64,
      parse_statement = (\<lambda>f. if f = ''zabka''
         then Some [Inr example_transaction, Inl MalformedAmount, Inr example_transaction,
                    Inr example_transaction]
         else None)\<rparr>"

definition ascii :: "string \<Rightarrow> js_string" where
  "ascii s = map of_char s"

definition ascii_lower :: "js_string \<Rightarrow> js_string" where
  "ascii_lower s = map (\<lambda>c. if 0x41 \<le> c \<and> c \<le> 0x5A then c + 0x20 else c) s"

definition example_ops :: "db_op list" where
  "example_ops =
     [ApplyTag 1 1 ''manual'' None, ApplyTag 1 1 ''auto_rule'' (Some (Decimal 9 1)),
      InsertLink 1 2 (Some ''auto_merchant'') (Some (Decimal 85 2)),
      RemoveTag 1 2, RemoveTag 1 2]"

definition example_history :: "db_op list" where
  "example_history =
     [CreateTag 1 ''grocery'' ''Grocery'' None None None,
      InsertTransaction example_transaction,
      RemoveTag 1 1,
      ApplyTag 1 1 ''manual'' None,
      RemoveTag 1 1,
      RemoveTag 1 1]"

definition example_overconfident :: "db_op list" where
  "example_overconfident =
     [CreateTag 1 ''grocery'' ''Grocery'' None None None,
      InsertTransaction example_transaction,
      InsertLink 1 1 (Some ''auto_rule'') (Some (Decimal 15 1))]"

definition example_unscored :: "db_op list" where
  "example_unscored =
     [CreateTag 1 ''grocery'' ''Grocery'' None None None,
      CreateTag 1 ''shop'' ''Shop'' None None None,
      InsertTransaction example_transaction,
      InsertLink 1 1 (Some ''auto_nlp'') (Some NotANumber),
      InsertLink 1 2 (Some ''auto_merchant'') None]"

definition example_confident :: "db_op list" where
  "example_confident =
     [CreateTag 1 ''grocery'' ''Grocery'' None None None,
      InsertTransaction example_transaction,
      InsertLink 1 1 (Some ''auto_rule'') (Some (Decimal 9 1))]"

definition example_form :: "string \<Rightarrow> string \<Rightarrow> tags_page" where
  "example_form n d =
     \<lparr>newTagName = ascii n, newTagDisplayName = ascii d, newTagColor = ascii ''#3b82f6'',
      newTagDescription = []\<rparr>"


definition example_enrichment :: enrichment where
  "example_enrichment =
     \<lparr>enr_merchant = Some 3, enr_normalized_name = ''Zabka'', enr_store = Some 12,
      enr_location = Some ''WARSZAWA'', enr_confidence = Number 95\<rparr>"

definition example_edited :: transaction_row where
  "example_edited =
     example_transaction\<lparr>merchant_id := Some 7, normalized_merchant_name := Some ''Zabka Polska''\<rparr>"

definition example_ev :: "string \<Rightarrow> transaction_row \<Rightarrow> bool option" where
  "example_ev c x = (if c = [] then None else Some (c = operation_type x))"

definition example_rule :: "string tagging_rule" where
  "example_rule =
     \<lparr>rule_id = 5, conditions = ''ZAKUP PRZY UZYCIU KARTY'', tag_ids = [1, 2],
      rule_priority = 10, rule_confidence = 90\<rparr>"

definition example_other_rule :: "string tagging_rule" where
  "example_other_rule =
     \<lparr>rule_id = 6, conditions = ''PRZELEW'', tag_ids = [2],
      rule_priority = 20, rule_confidence = 80\<rparr>"

definition example_applications :: "rule_application_row list" where
  "example_applications = [\<lparr>app_id = 1, app_rule_id = 5, app_transaction_id = 1\<rparr>]"

definition example_enrichments :: "enrichment_op list" where
  "example_enrichments =
     [EnrichTransaction 200 1 example_enrichment, PopulateRawMerchantText 300,
      EnrichTransaction 400 1 (example_enrichment\<lparr>enr_merchant := Some 4\<rparr>)]"

definition example_edited_db :: db where
  "example_edited_db = example_db\<lparr>transactions := [example_edited]\<rparr>"



section \<open>Effect of the statements\<close>

lemma uuid_generate_fresh: "uuid_generate ids \<notin> set ids"
proof -
  have "a \<le> fold max ids a \<and> (\<forall>x \<in> set ids. x \<le> fold max ids a)" for a
  proof (induction ids arbitrary: a)
    case Nil
    show ?case by simp
  next
    case (Cons y ys)
    from Cons [of "max y a"] show ?case by auto
  qed
  then have "\<forall>x \<in> set ids. x \<le> fold max ids 0" by blast
  then show ?thesis unfolding uuid_generate_def using Suc_n_not_le_n by blast
qed

lemma int4pl_Inr: "int4pl x d = Inr v \<Longrightarrow> v = map_option (\<lambda>u. u + d) x"
  by (auto simp: int4pl_def split: option.splits if_splits)

lemma update_tags_usage_Inr:
  "update_tags_usage g d ts = Inr ts' \<Longrightarrow>
   ts' = map (\<lambda>t. if tag_id t = g then t\<lparr>usage_count := map_option (\<lambda>u. u + d) (usage_count t)\<rparr> else t) ts"
  by (induction ts arbitrary: ts') (auto split: if_splits sum.splits dest: int4pl_Inr)

lemma trigger_delete_Inr:
  "trigger_update_tag_usage TG_DELETE rs ts = Inr ts' \<Longrightarrow>
   ts' = map (\<lambda>t. t\<lparr>usage_count :=
       map_option (\<lambda>u. u - int (length (filter (\<lambda>r. tt_tag_id r = tag_id t) rs))) (usage_count t)\<rparr>) ts"
proof (induction rs arbitrary: ts)
  case Nil
  then show ?case by (simp add: map_idI option.map_ident)
next
  case (Cons r rs)
  from Cons.prems obtain ts1 where
    1: "update_tags_usage (tt_tag_id r) (- 1) ts = Inr ts1" and
    2: "trigger_update_tag_usage TG_DELETE rs ts1 = Inr ts'"
    by (auto simp: update_tag_usage_count_def split: sum.splits)
  show ?case
    unfolding Cons.IH [OF 2] update_tags_usage_Inr [OF 1]
    by (auto simp: option.map_comp comp_def diff_diff_eq intro!: map_option_cong)
qed


lemma insert_transaction_tag_Inr:
  assumes "insert_transaction_tag x g src conf s = Inr s'"
  shows "\<exists>new. tt_transaction_id new = x \<and> tt_tag_id new = g
    \<and> varchar_opt 50 src = Inr (tt_source new)
    \<and> numeric_opt 3 2 conf = Inr (tt_confidence new)
    \<and> \<not> linked s x g \<and> x \<in> txn_id ` set (transactions s) \<and> g \<in> tag_id ` set (tags s)
    \<and> transaction_tags s' = transaction_tags s @ [new]
    \<and> tags s' = map (\<lambda>t. if tag_id t = g
        then t\<lparr>usage_count := map_option (\<lambda>u. u + 1) (usage_count t)\<rparr> else t) (tags s)
    \<and> transactions s' = transactions s \<and> import_batches s' = import_batches s"
proof -
  from assms obtain src' conf' ts' where
    a: "varchar_opt 50 src = Inr src'" "numeric_opt 3 2 conf = Inr conf'"
       "\<not> linked s x g" "x \<in> txn_id ` set (transactions s)" "g \<in> tag_id ` set (tags s)"
       "update_tags_usage g 1 (tags s) = Inr ts'"
       "s' = s\<lparr>tags := ts', transaction_tags := transaction_tags s @
          [\<lparr>tt_id = uuid_generate (map tt_id (transaction_tags s)),
            tt_transaction_id = x, tt_tag_id = g, tt_source = src', tt_confidence = conf'\<rparr>]\<rparr>"
    unfolding insert_transaction_tag_def linked_def Let_def
    by (simp add: update_tag_usage_count_def split: sum.splits if_splits)
  show ?thesis
    by (rule exI [where x = "\<lparr>tt_id = uuid_generate (map tt_id (transaction_tags s)),
            tt_transaction_id = x, tt_tag_id = g, tt_source = src', tt_confidence = conf'\<rparr>"])
       (simp add: a update_tags_usage_Inr [OF a(6)])
qed

lemma delete_transaction_tags_Inr:
  assumes "delete_transaction_tags p s = Inr s'"
  shows "transaction_tags s' = filter (\<lambda>l. \<not> p l) (transaction_tags s)"
    and "tags s' = map (\<lambda>t. t\<lparr>usage_count := map_option
            (\<lambda>u. u - int (length (filter (\<lambda>r. tt_tag_id r = tag_id t)
                                    (filter p (transaction_tags s))))) (usage_count t)\<rparr>) (tags s)"
    and "transactions s' = transactions s" and "import_batches s' = import_batches s"
proof -
  from assms obtain ts' where
    a: "trigger_update_tag_usage TG_DELETE (filter p (transaction_tags s)) (tags s) = Inr ts'"
       "s' = s\<lparr>tags := ts', transaction_tags := filter (\<lambda>l. \<not> p l) (transaction_tags s)\<rparr>"
    unfolding delete_transaction_tags_def by (simp split: sum.splits)
  show "transaction_tags s' = filter (\<lambda>l. \<not> p l) (transaction_tags s)"
    and "transactions s' = transactions s" and "import_batches s' = import_batches s"
    by (simp_all add: a(2))
  show "tags s' = map (\<lambda>t. t\<lparr>usage_count := map_option
            (\<lambda>u. u - int (length (filter (\<lambda>r. tt_tag_id r = tag_id t)
                                    (filter p (transaction_tags s))))) (usage_count t)\<rparr>) (tags s)"
  proof -
    have "tags s' = ts'" by (simp add: a(2))
    then show ?thesis using trigger_delete_Inr [OF a(1)] by (simp only:)
  qed
qed

lemma length_filter_split:
  "length (filter q xs) = length (filter q (filter p xs)) + length (filter q (filter (\<lambda>x. \<not> p x) xs))"
  by (induction xs) auto

lemma usage_inv_insert_transaction_tag:
  assumes "usage_inv s" and "insert_transaction_tag x g src conf s = Inr s'"
  shows "usage_inv s'"
proof -
  from insert_transaction_tag_Inr [OF assms(2)] obtain new where n: "tt_tag_id new = g"
    "transaction_tags s' = transaction_tags s @ [new]"
    "tags s' = map (\<lambda>t. if tag_id t = g
        then t\<lparr>usage_count := map_option (\<lambda>u. u + 1) (usage_count t)\<rparr> else t) (tags s)"
    by blast
  from assms(1) show ?thesis
    by (auto simp: usage_inv_def link_count_def n)
qed

lemma usage_inv_delete_transaction_tags:
  assumes "usage_inv s" and "delete_transaction_tags p s = Inr s'"
  shows "usage_inv s'"
proof -
  note d = delete_transaction_tags_Inr [OF assms(2)]
  show ?thesis
    unfolding usage_inv_def
  proof
    fix t' assume "t' \<in> set (tags s')"
    then obtain t where t: "t \<in> set (tags s)" and
      t': "t' = t\<lparr>usage_count := map_option
            (\<lambda>u. u - int (length (filter (\<lambda>r. tt_tag_id r = tag_id t)
                                    (filter p (transaction_tags s))))) (usage_count t)\<rparr>"
      unfolding d(2) by auto
    from assms(1) t have u: "usage_count t = Some (int (link_count s (tag_id t)))"
      by (simp add: usage_inv_def)
    have "link_count s (tag_id t) =
        length (filter (\<lambda>r. tt_tag_id r = tag_id t) (filter p (transaction_tags s)))
        + link_count s' (tag_id t)"
      unfolding link_count_def d(1) by (rule length_filter_split)
    then show "usage_count t' = Some (int (link_count s' (tag_id t')))"
      by (simp add: t' u)
  qed
qed


lemma insert_tag_Inr:
  assumes "insert_tag u n dn c i d s = Inr s'"
  shows "\<exists>t. tags s' = tags s @ [t] \<and> tag_id t = uuid_generate (map tag_id (tags s))
    \<and> usage_count t = Some 0 \<and> transaction_tags s' = transaction_tags s
    \<and> transactions s' = transactions s \<and> import_batches s' = import_batches s"
  using assms unfolding insert_tag_def
  by (auto split: sum.splits if_splits)

lemma insert_transaction_Inr:
  assumes "insert_transaction r s = Inr s'"
  shows "tags s' = tags s" and "transaction_tags s' = transaction_tags s"
    and "import_batches s' = import_batches s"
    and "transactions s' = transactions s @ [r\<lparr>txn_id := uuid_generate (map txn_id (transactions s))\<rparr>]"
    and "transaction_hash r \<notin> transaction_hash ` set (transactions s)"
  using assms unfolding insert_transaction_def
  by (auto split: if_splits)

lemma insert_import_batch_Inr:
  assumes "insert_import_batch b s = Inr s'"
  shows "tags s' = tags s" and "transaction_tags s' = transaction_tags s"
    and "transactions s' = transactions s"
    and "import_batches s' = import_batches s @ [b\<lparr>batch_id := uuid_generate (map batch_id (import_batches s))\<rparr>]"
    and "\<not> (\<exists>c \<in> set (import_batches s). batch_user_id c = batch_user_id b \<and> file_hash c = file_hash b)"
  using assms unfolding insert_import_batch_def
  by (auto split: if_splits)

lemma usage_inv_insert_tag:
  assumes "usage_inv s" and "links_reference_tags s" and "insert_tag u n dn c i d s = Inr s'"
  shows "usage_inv s'"
proof -
  from insert_tag_Inr [OF assms(3)] obtain t where
    t: "tags s' = tags s @ [t]" "tag_id t = uuid_generate (map tag_id (tags s))"
       "usage_count t = Some 0" "transaction_tags s' = transaction_tags s"
    by blast
  have "tag_id t \<notin> tag_id ` set (tags s)"
    using uuid_generate_fresh [of "map tag_id (tags s)"] by (simp add: t(2))
  with assms(2) have "\<forall>l \<in> set (transaction_tags s). tt_tag_id l \<noteq> tag_id t"
    unfolding links_reference_tags_def by metis
  then have "link_count s' (tag_id t) = 0"
    by (simp add: link_count_def t(4) filter_empty_conv)
  with assms(1) show ?thesis
    by (auto simp: usage_inv_def t(1,3) link_count_def t(4))
qed

lemma usage_inv_statement:
  assumes "usage_inv s" and "links_reference_tags s" and "statement opn s = Inr s'"
  shows "usage_inv s'"
proof (cases opn)
  case (CreateTag u n dn c i d)
  with assms show ?thesis by (simp add: usage_inv_insert_tag)
next
  case (InsertBatch b)
  with assms(3) have "insert_import_batch b s = Inr s'" by simp
  from insert_import_batch_Inr(1,2) [OF this] assms(1) show ?thesis
    by (simp add: usage_inv_def link_count_def)
next
  case (InsertTransaction r)
  with assms(3) have "insert_transaction r s = Inr s'" by simp
  from insert_transaction_Inr(1,2) [OF this] assms(1) show ?thesis
    by (simp add: usage_inv_def link_count_def)
next
  case (InsertLink x g src conf)
  with assms show ?thesis by (simp add: usage_inv_insert_transaction_tag)
next
  case (DeleteLinks p)
  with assms show ?thesis by (simp add: usage_inv_delete_transaction_tags)
next
  case (ApplyTag x g src conf)
  with assms show ?thesis
    by (auto simp: applyTag_def usage_inv_insert_transaction_tag split: if_splits)
next
  case (RemoveTag x g)
  with assms show ?thesis
    by (auto simp: removeTag_def usage_inv_delete_transaction_tags split: if_splits)
qed

lemma map_tag_id_usage_update:
  "map tag_id (map (\<lambda>t. if P t then t\<lparr>usage_count := h t\<rparr> else t) ts) = map tag_id ts"
  "map tag_id (map (\<lambda>t. t\<lparr>usage_count := h t\<rparr>) ts) = map tag_id ts"
  by (induction ts) auto

lemma links_reference_tags_statement:
  assumes "links_reference_tags s" and "statement opn s = Inr s'"
  shows "links_reference_tags s'"
proof -
  have ins: "links_reference_tags s'" if "insert_transaction_tag x g src conf s = Inr s'" for x g src conf
  proof -
    from insert_transaction_tag_Inr [OF that] obtain new where n: "tt_tag_id new = g"
      "g \<in> tag_id ` set (tags s)" "transaction_tags s' = transaction_tags s @ [new]"
      "tags s' = map (\<lambda>t. if tag_id t = g
          then t\<lparr>usage_count := map_option (\<lambda>u. u + 1) (usage_count t)\<rparr> else t) (tags s)"
      by blast
    have "map tag_id (tags s') = map tag_id (tags s)"
      unfolding n(4) by (rule map_tag_id_usage_update)
    then have "tag_id ` set (tags s') = tag_id ` set (tags s)"
      by (metis set_map)
    with assms(1) n(1,2,3) show ?thesis by (auto simp: links_reference_tags_def)
  qed
  have del: "links_reference_tags s'" if "delete_transaction_tags p s = Inr s'" for p
  proof -
    note d = delete_transaction_tags_Inr [OF that]
    have "map tag_id (tags s') = map tag_id (tags s)"
      unfolding d(2) by (rule map_tag_id_usage_update)
    then have "tag_id ` set (tags s') = tag_id ` set (tags s)"
      by (metis set_map)
    with assms(1) show ?thesis by (auto simp: links_reference_tags_def d(1))
  qed
  show ?thesis
  proof (cases opn)
    case (CreateTag u n dn c i d)
    with assms(2) have "insert_tag u n dn c i d s = Inr s'" by simp
    from insert_tag_Inr [OF this] assms(1) show ?thesis
      by (auto simp: links_reference_tags_def)
  next
    case (InsertBatch b)
    with assms(2) have "insert_import_batch b s = Inr s'" by simp
    from insert_import_batch_Inr(1,2) [OF this] assms(1) show ?thesis
      by (simp add: links_reference_tags_def)
  next
    case (InsertTransaction r)
    with assms(2) have "insert_transaction r s = Inr s'" by simp
    from insert_transaction_Inr(1,2) [OF this] assms(1) show ?thesis
      by (simp add: links_reference_tags_def)
  next
    case (InsertLink x g src conf)
    with assms(2) show ?thesis by (simp add: ins)
  next
    case (DeleteLinks p)
    with assms(2) show ?thesis by (simp add: del)
  next
    case (ApplyTag x g src conf)
    with assms show ?thesis by (auto simp: applyTag_def ins split: if_splits)
  next
    case (RemoveTag x g)
    with assms show ?thesis by (auto simp: removeTag_def del split: if_splits)
  qed
qed

lemma exec_cases:
  obtains "exec opn s = s" | s' where "statement opn s = Inr s'" "exec opn s = s'"
  unfolding exec_def by (cases "statement opn s") auto

lemma ledger_inv_run:
  assumes "usage_inv s" and "links_reference_tags s"
  shows "usage_inv (run ops s) \<and> links_reference_tags (run ops s)"
  using assms unfolding run_def
proof (induction ops arbitrary: s)
  case Nil
  then show ?case by simp
next
  case (Cons opn ops)
  have "usage_inv (exec opn s) \<and> links_reference_tags (exec opn s)"
    by (rule exec_cases [of opn s])
       (auto simp: Cons.prems intro: usage_inv_statement links_reference_tags_statement Cons.prems)
  with Cons.IH show ?case by simp
qed

section \<open>Uniqueness of the links\<close>

lemma statement_links:
  assumes "statement opn s = Inr s'"
  shows "transaction_tags s' = transaction_tags s
    \<or> (\<exists>p. transaction_tags s' = filter p (transaction_tags s))
    \<or> (\<exists>new conf. transaction_tags s' = transaction_tags s @ [new]
          \<and> \<not> linked s (tt_transaction_id new) (tt_tag_id new)
          \<and> numeric_opt 3 2 conf = Inr (tt_confidence new))"
proof -
  have ins: ?thesis if "insert_transaction_tag x g src conf s = Inr s'" for x g src conf
    using insert_transaction_tag_Inr [OF that] by blast
  have del: ?thesis if "delete_transaction_tags p s = Inr s'" for p
    using delete_transaction_tags_Inr(1) [OF that] by blast
  show ?thesis
  proof (cases opn)
    case (CreateTag u n dn c i d)
    with assms have "insert_tag u n dn c i d s = Inr s'" by simp
    from insert_tag_Inr [OF this] show ?thesis by blast
  next
    case (InsertBatch b)
    with assms have "insert_import_batch b s = Inr s'" by simp
    from insert_import_batch_Inr(2) [OF this] show ?thesis by blast
  next
    case (InsertTransaction r)
    with assms have "insert_transaction r s = Inr s'" by simp
    from insert_transaction_Inr(2) [OF this] show ?thesis by blast
  next
    case (InsertLink x g src conf)
    with assms have "insert_transaction_tag x g src conf s = Inr s'" by simp
    then show ?thesis by (rule ins)
  next
    case (DeleteLinks p)
    with assms have "delete_transaction_tags p s = Inr s'" by simp
    then show ?thesis by (rule del)
  next
    case (ApplyTag x g src conf)
    with assms have "s' = s \<or> insert_transaction_tag x g (Some src) conf s = Inr s'"
      by (auto simp: applyTag_def split: if_splits)
    then show ?thesis using ins by blast
  next
    case (RemoveTag x g)
    with assms have "s' = s
        \<or> delete_transaction_tags (\<lambda>l. tt_transaction_id l = x \<and> tt_tag_id l = g) s = Inr s'"
      by (auto simp: removeTag_def split: if_splits)
    then show ?thesis using del by blast
  qed
qed

lemma links_unique_statement:
  assumes "links_unique s" and "statement opn s = Inr s'"
  shows "links_unique s'"
proof -
  let ?key = "\<lambda>l. (tt_transaction_id l, tt_tag_id l)"
  from statement_links [OF assms(2)] consider
      "transaction_tags s' = transaction_tags s"
    | p where "transaction_tags s' = filter p (transaction_tags s)"
    | new where "transaction_tags s' = transaction_tags s @ [new]"
        "\<not> linked s (tt_transaction_id new) (tt_tag_id new)"
    by blast
  then show ?thesis
  proof cases
    case 1
    with assms(1) show ?thesis by (simp add: links_unique_def)
  next
    case 2
    with assms(1) show ?thesis by (simp add: links_unique_def distinct_map_filter)
  next
    case 3
    from 3(2) have "?key new \<notin> ?key ` set (transaction_tags s)"
      unfolding linked_def by force
    with assms(1) 3(1) show ?thesis by (simp add: links_unique_def)
  qed
qed

lemma links_unique_run: "links_unique s \<Longrightarrow> links_unique (run ops s)"
  unfolding run_def
proof (induction ops arbitrary: s)
  case Nil
  then show ?case by simp
next
  case (Cons opn ops)
  have "links_unique (exec opn s)"
    by (rule exec_cases [of opn s]) (auto intro: links_unique_statement Cons.prems)
  with Cons.IH show ?case by simp
qed

lemma distinct_map_filter_le1:
  "distinct (map f xs) \<Longrightarrow> length (filter (\<lambda>x. f x = k) xs) \<le> Suc 0"
proof (induction xs)
  case Nil
  then show ?case by simp
next
  case (Cons a xs)
  show ?case
  proof (cases "f a = k")
    case True
    from Cons.prems have "f a \<notin> f ` set xs" by simp
    with True have "filter (\<lambda>x. f x = k) xs = []"
      unfolding filter_empty_conv by blast
    with True show ?thesis by simp
  next
    case False
    with Cons show ?thesis by simp
  qed
qed

lemma links_unique_at_most_one: "links_unique s \<Longrightarrow> length (links_of s x g) \<le> 1"
  using distinct_map_filter_le1 [of "\<lambda>l. (tt_transaction_id l, tt_tag_id l)" "transaction_tags s" "(x, g)"]
  by (simp add: links_unique_def links_of_def)

section \<open>Tag usage counter\<close>

lemmas ledger_eval = exec_def run_def applyTag_def removeTag_def linked_def links_of_def
  insert_transaction_tag_def delete_transaction_tags_def update_tag_usage_count_def int4pl_def
  varchar_def uuid_generate_def example_db_def example_tag_def example_transaction_def
  round_half_away_def insert_tag_def insert_transaction_def too_long_def out_of_range_def
  init_db_def

lemma init_db_inv:
  "usage_inv init_db" "links_reference_tags init_db" "links_unique init_db"
  by (simp_all add: usage_inv_def links_reference_tags_def links_unique_def init_db_def)

lemma example_db_inv:
  "usage_inv example_db" "links_reference_tags example_db" "links_unique example_db"
  by (simp_all add: usage_inv_def links_reference_tags_def links_unique_def link_count_def
      example_db_def example_tag_def)

text \<open>
  C1. In a database where every tag's \<open>usage_count\<close> equals the number of its links (and
  every link references a stored tag, as the foreign key demands), any sequence of
  operations keeps it so: after the run, the \<open>usage_count\<close> of each tag is the number of
  \<open>transaction_tags\<close> rows referencing it.
\<close>

theorem usage_count_equals_link_count:
  assumes "usage_inv s" and "links_reference_tags s"
  shows "\<forall>t \<in> set (tags (run ops s)).
           usage_count t =
             Some (int (length (filter (\<lambda>l. tt_tag_id l = tag_id t)
                                  (transaction_tags (run ops s)))))"
  using ledger_inv_run [OF assms, of ops] by (simp add: usage_inv_def link_count_def)

theorem usage_count_equals_link_count_witness:
  "usage_inv example_db \<and> links_reference_tags example_db
   \<and> usage_inv (run example_ops example_db)
   \<and> map usage_count (tags (run example_ops example_db)) = [Some 1, Some 0]
   \<and> map tt_tag_id (transaction_tags (run example_ops example_db)) = [1]"
proof -
  have v: "map usage_count (tags (run example_ops example_db)) = [Some 1, Some 0]"
    "map tt_tag_id (transaction_tags (run example_ops example_db)) = [1]"
    by (simp_all add: example_ops_def ledger_eval)
  have u: "usage_inv (run example_ops example_db)"
    using usage_count_equals_link_count [OF example_db_inv(1,2), of example_ops]
    by (simp add: usage_inv_def link_count_def)
  show ?thesis
    by (intro conjI) (rule example_db_inv u v)+
qed

lemma insert_transaction_tag_linked:
  assumes "linked s x g"
  shows "\<exists>e. insert_transaction_tag x g src conf s = Inl e"
proof (cases "varchar_opt 50 src")
  case (Inl e)
  then show ?thesis by (simp add: insert_transaction_tag_def)
next
  case src': (Inr src')
  show ?thesis
  proof (cases "numeric_opt 3 2 conf")
    case (Inl e)
    with src' show ?thesis by (simp add: insert_transaction_tag_def)
  next
    case (Inr conf')
    from assms have "\<exists>l \<in> set (transaction_tags s). tt_transaction_id l = x \<and> tt_tag_id l = g"
      by (simp add: linked_def)
    with src' Inr show ?thesis by (simp add: insert_transaction_tag_def)
  qed
qed

text \<open>
  C2. Take a pair that is not linked and whose \<^verbatim>\<open>INSERT\<close> the database accepts. The
  first \<open>applyTag\<close> is that insert; a second \<open>applyTag\<close> on the same pair, with any
  provenance and confidence, is a no-op, and a second \<^verbatim>\<open>INSERT\<close> is rejected and rolled
  back. Exactly one link for the pair exists afterwards, the tag's \<open>usage_count\<close> is one
  more than before the first call, and every other tag row is unchanged. In every state
  reached from a database that respects \<^verbatim>\<open>UNIQUE(transaction_id, tag_id)\<close>, each pair has
  at most one link, whatever the provenance of the calls.
\<close>

theorem applyTag_twice_single_link:
  assumes "usage_inv s" and "links_unique s" and "\<not> linked s x g"
    and "insert_transaction_tag x g (Some src) conf s = Inr s1"
  shows "applyTag x g src conf s = Inr s1
    \<and> applyTag x g src' conf' s1 = Inr s1
    \<and> exec (InsertLink x g src'' conf') s1 = s1
    \<and> length (links_of s1 x g) = 1
    \<and> tags s1 = map (\<lambda>t. if tag_id t = g
          then t\<lparr>usage_count := map_option (\<lambda>n. n + 1) (usage_count t)\<rparr> else t) (tags s)
    \<and> (\<exists>t \<in> set (tags s). tag_id t = g \<and> usage_count t = Some (int (link_count s g)))
    \<and> (\<forall>t \<in> set (tags s1). tag_id t = g \<longrightarrow> usage_count t = Some (int (link_count s g) + 1))
    \<and> (\<forall>ops y h. length (links_of (run ops s) y h) \<le> 1)"
proof -
  note ins = assms(4)
  from assms(3) ins have a0: "applyTag x g src conf s = Inr s1"
    by (simp add: applyTag_def)
  from insert_transaction_tag_Inr [OF ins] obtain new where n:
    "tt_transaction_id new = x" "tt_tag_id new = g" "g \<in> tag_id ` set (tags s)"
    "transaction_tags s1 = transaction_tags s @ [new]"
    "tags s1 = map (\<lambda>t. if tag_id t = g
        then t\<lparr>usage_count := map_option (\<lambda>u. u + 1) (usage_count t)\<rparr> else t) (tags s)"
    by blast
  have linked1: "linked s1 x g"
    by (simp add: linked_def n(1,2,4))
  then have a: "applyTag x g src' conf' s1 = Inr s1"
    by (simp add: applyTag_def)
  from insert_transaction_tag_linked [OF linked1, of src'' conf']
  have a1: "exec (InsertLink x g src'' conf') s1 = s1"
    by (auto simp: exec_def)
  from assms(3) have "\<forall>l \<in> set (transaction_tags s). \<not> (tt_transaction_id l = x \<and> tt_tag_id l = g)"
    unfolding linked_def by blast
  then have "links_of s x g = []"
    unfolding links_of_def filter_empty_conv by blast
  then have b: "length (links_of s1 x g) = 1"
    by (simp add: links_of_def n(1,2,4))
  from n(3) obtain t0 where t0: "t0 \<in> set (tags s)" "tag_id t0 = g" by blast
  with assms(1) have "usage_count t0 = Some (int (link_count s g))"
    unfolding usage_inv_def by blast
  with t0 have d: "\<exists>t \<in> set (tags s). tag_id t = g \<and> usage_count t = Some (int (link_count s g))"
    by blast
  have e: "\<forall>t \<in> set (tags s1). tag_id t = g \<longrightarrow> usage_count t = Some (int (link_count s g) + 1)"
  proof (intro ballI impI)
    fix t' assume "t' \<in> set (tags s1)" and g: "tag_id t' = g"
    then have "t' \<in> (\<lambda>t. if tag_id t = g
        then t\<lparr>usage_count := map_option (\<lambda>u. u + 1) (usage_count t)\<rparr> else t) ` set (tags s)"
      by (simp only: n(5) set_map)
    then obtain t where t: "t \<in> set (tags s)" and
      t': "t' = (if tag_id t = g
        then t\<lparr>usage_count := map_option (\<lambda>u. u + 1) (usage_count t)\<rparr> else t)"
      by (rule imageE)
    from t' g have tg: "tag_id t = g" by (cases "tag_id t = g") simp_all
    from assms(1) t tg have "usage_count t = Some (int (link_count s g))"
      unfolding usage_inv_def by blast
    with t' tg show "usage_count t' = Some (int (link_count s g) + 1)" by simp
  qed
  have f: "\<forall>ops y h. length (links_of (run ops s) y h) \<le> 1"
    using links_unique_run [OF assms(2)] links_unique_at_most_one by blast
  show ?thesis
    by (intro conjI) (rule a0 a a1 b n(5) d e f)+
qed

theorem applyTag_twice_single_link_witness:
  "usage_inv example_db \<and> links_unique example_db \<and> \<not> linked example_db 1 1
   \<and> (\<exists>s1. insert_transaction_tag 1 1 (Some ''auto_rule'') (Some (Decimal 9 1)) example_db = Inr s1
        \<and> applyTag 1 1 ''auto_rule'' (Some (Decimal 9 1)) example_db = Inr s1
        \<and> applyTag 1 1 ''manual'' None s1 = Inr s1
        \<and> length (links_of s1 1 1) = 1
        \<and> map usage_count (tags s1) = [Some 1, Some 0])"
proof -
  have "\<exists>s1. insert_transaction_tag 1 1 (Some ''auto_rule'') (Some (Decimal 9 1)) example_db = Inr s1"
    by (simp add: ledger_eval)
  then obtain s1 where
    s1: "insert_transaction_tag 1 1 (Some ''auto_rule'') (Some (Decimal 9 1)) example_db = Inr s1" ..
  have nl: "\<not> linked example_db 1 1"
    by (simp add: ledger_eval)
  note r = applyTag_twice_single_link [OF example_db_inv(1,3) nl s1, of "''manual''" None]
  have a0: "applyTag 1 1 ''auto_rule'' (Some (Decimal 9 1)) example_db = Inr s1"
    by (rule r [THEN conjunct1])
  have a: "applyTag 1 1 ''manual'' None s1 = Inr s1"
    by (rule r [THEN conjunct2, THEN conjunct1])
  have b: "length (links_of s1 1 1) = 1"
    by (rule r [THEN conjunct2, THEN conjunct2, THEN conjunct2, THEN conjunct1])
  have "tags s1 = map (\<lambda>t. if tag_id t = 1
          then t\<lparr>usage_count := map_option (\<lambda>n. n + 1) (usage_count t)\<rparr> else t) (tags example_db)"
    by (rule r [THEN conjunct2, THEN conjunct2, THEN conjunct2, THEN conjunct2, THEN conjunct1])
  then have c: "map usage_count (tags s1) = [Some 1, Some 0]"
    by (simp add: example_db_def example_tag_def)
  show ?thesis
    by (intro conjI exI [where x = s1]) (rule example_db_inv nl s1 a0 a b c)+
qed

lemma delete_nothing:
  assumes "\<forall>l \<in> set (transaction_tags s). \<not> p l"
  shows "delete_transaction_tags p s = Inr s"
proof -
  from assms have "filter p (transaction_tags s) = []"
    unfolding filter_empty_conv by blast
  moreover from assms have "filter (\<lambda>l. \<not> p l) (transaction_tags s) = transaction_tags s"
    unfolding filter_id_conv by blast
  ultimately show ?thesis
    by (simp add: delete_transaction_tags_def)
qed

text \<open>
  C5. For a pair without a link, \<open>removeTag\<close> returns the database as it is, and so does
  the \<^verbatim>\<open>DELETE\<close> statement for that pair (no row, so the trigger does not run): links
  and usage counts are unchanged. In every state reached from the initial database by any
  sequence of operations, every tag's \<open>usage_count\<close> is a number that is not negative.
\<close>

theorem removeTag_without_link_is_noop:
  "(\<not> linked s x g \<longrightarrow>
      removeTag x g s = Inr s
      \<and> delete_transaction_tags (\<lambda>l. tt_transaction_id l = x \<and> tt_tag_id l = g) s = Inr s
      \<and> exec (RemoveTag x g) s = s)
   \<and> (\<forall>t \<in> set (tags (run ops init_db)). \<exists>n. usage_count t = Some n \<and> 0 \<le> n)"
proof (intro conjI impI ballI)
  assume nl: "\<not> linked s x g"
  then show "removeTag x g s = Inr s" by (simp add: removeTag_def)
  then show "exec (RemoveTag x g) s = s" by (simp add: exec_def)
  from nl show "delete_transaction_tags (\<lambda>l. tt_transaction_id l = x \<and> tt_tag_id l = g) s = Inr s"
    unfolding linked_def by (intro delete_nothing) blast
next
  fix t assume "t \<in> set (tags (run ops init_db))"
  with ledger_inv_run [OF init_db_inv(1,2), of ops]
  have "usage_count t = Some (int (link_count (run ops init_db) (tag_id t)))"
    unfolding usage_inv_def by blast
  then show "\<exists>n. usage_count t = Some n \<and> 0 \<le> n" by simp
qed

theorem removeTag_without_link_is_noop_witness:
  "\<not> linked example_db 1 2
   \<and> removeTag 1 2 example_db = Inr example_db
   \<and> exec (RemoveTag 1 2) example_db = example_db
   \<and> map usage_count (tags (run example_history init_db)) = [Some 0]"
proof -
  note r = removeTag_without_link_is_noop [of example_db 1 2 example_history]
  have nl: "\<not> linked example_db 1 2" by (simp add: ledger_eval)
  have a: "removeTag 1 2 example_db = Inr example_db"
    "exec (RemoveTag 1 2) example_db = example_db"
    using r [THEN conjunct1] nl by blast+
  have v: "map usage_count (tags (run example_history init_db)) = [Some 0]"
    by (simp add: example_history_def ledger_eval)
  show ?thesis
    by (intro conjI) (rule nl a v)+
qed

section \<open>The tag creation handler\<close>

lemma js_trim_empty: "js_trim s = [] \<longleftrightarrow> blank s"
proof
  assume "js_trim s = []"
  then have "\<forall>c \<in> set (dropWhile js_whitespace s). js_whitespace c"
    by (simp add: js_trim_def dropWhile_eq_Nil_conv)
  then have "dropWhile js_whitespace s = []"
    using hd_dropWhile [of js_whitespace s] hd_in_set [of "dropWhile js_whitespace s"] by blast
  then show "blank s" unfolding blank_def dropWhile_eq_Nil_conv .
next
  assume "blank s"
  then have "dropWhile js_whitespace s = []"
    unfolding blank_def dropWhile_eq_Nil_conv .
  then show "js_trim s = []"
    unfolding js_trim_def by (simp only: rev.simps dropWhile.simps)
qed

lemma hyphenated_Nil: "hyphenated [] = []"
  by (simp add: hyphenated_def)

lemma hyphenated_whitespace:
  "js_whitespace c \<Longrightarrow> hyphenated (c # cs) = 0x2D # hyphenated (dropWhile js_whitespace cs)"
  by (simp add: hyphenated_def hyphenate_run_def)

lemma hyphenated_other:
  "\<not> js_whitespace c \<Longrightarrow>
   hyphenated (c # cs) =
     c # takeWhile (\<lambda>y. \<not> js_whitespace y) cs
       @ hyphenated (dropWhile (\<lambda>y. \<not> js_whitespace y) cs)"
  by (simp add: hyphenated_def hyphenate_run_def)

lemma hyphenated_split:
  "hyphenated cs =
     takeWhile (\<lambda>y. \<not> js_whitespace y) cs
       @ hyphenated (dropWhile (\<lambda>y. \<not> js_whitespace y) cs)"
proof (cases cs)
  case Nil
  then show ?thesis by (simp add: hyphenated_Nil)
next
  case (Cons d ds)
  show ?thesis
  proof (cases "js_whitespace d")
    case True
    with Cons show ?thesis by simp
  next
    case False
    with Cons show ?thesis by (simp add: hyphenated_other)
  qed
qed

lemma replace_whitespace_hyphenated: "replace_whitespace s = hyphenated s"
proof (induction s rule: replace_whitespace.induct)
  case 1
  show ?case by (simp add: hyphenated_Nil)
next
  case (2 c cs)
  show ?case
  proof (cases "js_whitespace c")
    case True
    with 2 show ?thesis by (simp add: hyphenated_whitespace)
  next
    case False
    with 2 have "replace_whitespace (c # cs) = c # hyphenated cs" by simp
    also have "\<dots> = hyphenated (c # cs)"
      using hyphenated_split [of cs] False by (simp add: hyphenated_other)
    finally show ?thesis .
  qed
qed

text \<open>
  C10. The handler submits nothing when the entered name is blank. Otherwise it submits
  one request whose name is the lower-cased input with every run of white space replaced
  by one hyphen, whose display name is the entered display name, or the raw entered name
  when the display name is empty, and which carries the colour and the description (absent
  when empty).
\<close>

theorem handleCreateTag_request:
  "handleCreateTag toLowerCase st =
     (if blank (newTagName st) then None
      else Some
        \<lparr>req_name = hyphenated (toLowerCase (newTagName st)),
         req_display_name =
           (if newTagDisplayName st = [] then newTagName st else newTagDisplayName st),
         req_color = newTagColor st,
         req_description =
           (if newTagDescription st = [] then None else Some (newTagDescription st))\<rparr>)"
  by (simp add: handleCreateTag_def js_trim_empty replace_whitespace_hyphenated)

lemmas form_eval = example_form_def ascii_def ascii_lower_def blank_def js_whitespace_def
  hyphenated_def hyphenate_run_def

theorem handleCreateTag_request_witness:
  "handleCreateTag ascii_lower (example_form ''Pet  Food'' '''') =
     Some \<lparr>req_name = ascii ''pet-food'', req_display_name = ascii ''Pet  Food'',
           req_color = ascii ''#3b82f6'', req_description = None\<rparr>
   \<and> handleCreateTag ascii_lower (example_form '' Coffee'' ''Kawa'') =
     Some \<lparr>req_name = ascii ''-coffee'', req_display_name = ascii ''Kawa'',
           req_color = ascii ''#3b82f6'', req_description = None\<rparr>
   \<and> handleCreateTag ascii_lower (example_form ''   '' ''Blank'') = None"
  by (simp add: handleCreateTag_request form_eval)

section \<open>Uniqueness of transaction hashes and of batches\<close>

lemma statement_tables:
  assumes "statement opn s = Inr s'"
  shows "(transactions s' = transactions s
          \<or> (\<exists>r. transactions s' = transactions s @ [r]
                \<and> transaction_hash r \<notin> transaction_hash ` set (transactions s)))
       \<and> (import_batches s' = import_batches s
          \<or> (\<exists>b. import_batches s' = import_batches s @ [b]
                \<and> (batch_user_id b, file_hash b)
                    \<notin> (\<lambda>c. (batch_user_id c, file_hash c)) ` set (import_batches s)))"
proof -
  have ins: ?thesis if "insert_transaction_tag x g src conf s = Inr s'" for x g src conf
    using insert_transaction_tag_Inr [OF that] by auto
  have del: ?thesis if "delete_transaction_tags p s = Inr s'" for p
    using delete_transaction_tags_Inr(3,4) [OF that] by simp
  show ?thesis
  proof (cases opn)
    case (CreateTag u n dn c i d)
    with assms have "insert_tag u n dn c i d s = Inr s'" by simp
    from insert_tag_Inr [OF this] show ?thesis by auto
  next
    case (InsertBatch b)
    with assms have i: "insert_import_batch b s = Inr s'" by simp
    let ?b = "b\<lparr>batch_id := uuid_generate (map batch_id (import_batches s))\<rparr>"
    from insert_import_batch_Inr(5) [OF i]
    have "(batch_user_id ?b, file_hash ?b)
        \<notin> (\<lambda>c. (batch_user_id c, file_hash c)) ` set (import_batches s)"
      by auto
    with insert_import_batch_Inr(3,4) [OF i] show ?thesis by blast
  next
    case (InsertTransaction r)
    with assms have i: "insert_transaction r s = Inr s'" by simp
    let ?r = "r\<lparr>txn_id := uuid_generate (map txn_id (transactions s))\<rparr>"
    from insert_transaction_Inr(5) [OF i]
    have "transaction_hash ?r \<notin> transaction_hash ` set (transactions s)" by simp
    with insert_transaction_Inr(3,4) [OF i] show ?thesis by blast
  next
    case (InsertLink x g src conf)
    with assms have "insert_transaction_tag x g src conf s = Inr s'" by simp
    then show ?thesis by (rule ins)
  next
    case (DeleteLinks p)
    with assms have "delete_transaction_tags p s = Inr s'" by simp
    then show ?thesis by (rule del)
  next
    case (ApplyTag x g src conf)
    with assms have "s' = s \<or> insert_transaction_tag x g (Some src) conf s = Inr s'"
      by (auto simp: applyTag_def split: if_splits)
    then show ?thesis using ins by auto
  next
    case (RemoveTag x g)
    with assms have "s' = s
        \<or> delete_transaction_tags (\<lambda>l. tt_transaction_id l = x \<and> tt_tag_id l = g) s = Inr s'"
      by (auto simp: removeTag_def split: if_splits)
    then show ?thesis using del by auto
  qed
qed

lemma transaction_hashes_unique_statement:
  assumes "transaction_hashes_unique s" and "statement opn s = Inr s'"
  shows "transaction_hashes_unique s'"
  using statement_tables [OF assms(2), THEN conjunct1] assms(1)
  by (auto simp: transaction_hashes_unique_def)

lemma batches_unique_statement:
  assumes "batches_unique s" and "statement opn s = Inr s'"
  shows "batches_unique s'"
  using statement_tables [OF assms(2), THEN conjunct2] assms(1)
  by (auto simp: batches_unique_def)

lemma tables_unique_run:
  assumes "transaction_hashes_unique s" and "batches_unique s"
  shows "transaction_hashes_unique (run ops s) \<and> batches_unique (run ops s)"
  using assms unfolding run_def
proof (induction ops arbitrary: s)
  case Nil
  then show ?case by simp
next
  case (Cons opn ops)
  have "transaction_hashes_unique (exec opn s) \<and> batches_unique (exec opn s)"
    by (rule exec_cases [of opn s])
       (auto intro: transaction_hashes_unique_statement batches_unique_statement Cons.prems)
  with Cons.IH show ?case by simp
qed

lemma init_db_unique: "transaction_hashes_unique init_db" "batches_unique init_db"
  by (simp_all add: transaction_hashes_unique_def batches_unique_def init_db_def)

lemma insert_transaction_stored_hash:
  assumes "transaction_hash r \<in> transaction_hash ` set (transactions s)"
  shows "\<exists>e. insert_transaction r s = Inl e"
  using assms by (simp add: insert_transaction_def)

lemma insert_import_batch_stored_hash:
  assumes "\<exists>c \<in> set (import_batches s). batch_user_id c = batch_user_id b \<and> file_hash c = file_hash b"
  shows "\<exists>e. insert_import_batch b s = Inl e"
  using assms by (simp add: insert_import_batch_def)

section \<open>Uploads\<close>

lemma process_row_Inr:
  assumes "process_row u b draft (s, i, d) = Inr (s', i', d')"
  shows "(s' = s \<and> i' = i \<and> d' = d + 1) \<or>
         (insert_transaction (draft\<lparr>txn_user_id := u, import_batch_id := Some b\<rparr>) s = Inr s'
          \<and> i' = i + 1 \<and> d' = d)"
  using assms by (auto simp: process_row_def split: if_splits sum.splits)

lemma import_rows_preserves:
  assumes step: "\<And>r s s'. Q s \<Longrightarrow> insert_transaction r s = Inr s' \<Longrightarrow> Q s'"
    and "Q s" and "import_rows u b rows (s, i, d) k = ((s', i', d'), k', e)"
  shows "Q s'"
  using assms(2,3)
proof (induction rows arbitrary: s i d k)
  case Nil
  then show ?case by simp
next
  case (Cons row rows)
  show ?case
  proof (cases row)
    case (Inl err)
    with Cons.prems(2) have "import_rows u b rows (s, i, d) (k + 1) = ((s', i', d'), k', e)"
      by simp
    from Cons.IH [OF Cons.prems(1) this] show ?thesis .
  next
    case (Inr draft)
    show ?thesis
    proof (cases "process_row u b draft (s, i, d)")
      case (Inl err)
      with Inr Cons.prems(2) have "s' = s" by simp
      with Cons.prems(1) show ?thesis by simp
    next
      case acc: (Inr acc)
      obtain s2 i2 d2 where acc2: "acc = (s2, i2, d2)" by (cases acc)
      from acc Inr Cons.prems(2) acc2
      have rec: "import_rows u b rows (s2, i2, d2) k = ((s', i', d'), k', e)" by simp
      from process_row_Inr [OF acc [unfolded acc2]] Cons.prems(1) step
      have "Q s2" by blast
      from Cons.IH [OF this rec] show ?thesis .
    qed
  qed
qed

lemma update_import_batch_Inr:
  assumes "update_import_batch b i d st msg s = Inr s'"
  shows "import_batches s' =
      map (\<lambda>c. if batch_id c = b
                then c\<lparr>transactions_imported := Some i, duplicates_skipped := Some d,
                       import_status := Some st, error_message := msg\<rparr>
                else c) (import_batches s)"
    and "transactions s' = transactions s" and "tags s' = tags s"
    and "transaction_tags s' = transaction_tags s"
  using assms by (auto simp: update_import_batch_def split: if_splits)

lemma close_batch_db:
  "snd (close_batch b i d st msg s) = s
   \<or> update_import_batch b i d st msg s = Inr (snd (close_batch b i d st msg s))"
  by (auto simp: close_batch_def split: sum.splits option.splits)

lemma upload_preserves:
  assumes batch: "\<And>b s s'. Q s \<Longrightarrow> insert_import_batch b s = Inr s' \<Longrightarrow> Q s'"
    and txn: "\<And>r s s'. Q s \<Longrightarrow> insert_transaction r s = Inr s' \<Longrightarrow> Q s'"
    and upd: "\<And>b i d st msg s s'. Q s \<Longrightarrow> update_import_batch b i d st msg s = Inr s' \<Longrightarrow> Q s'"
    and "Q s"
  shows "Q (snd (upload P u name content s))"
proof (cases "find_batch s u (file_digest P content)")
  case (Some prev)
  with assms(4) show ?thesis by (simp add: upload_def)
next
  case None
  show ?thesis
  proof (cases "insert_import_batch (new_batch u name (file_digest P content) content) s")
    case (Inl e)
    with None assms(4) show ?thesis by (simp add: upload_def)
  next
    case (Inr s0)
    from batch [OF assms(4) Inr] have q0: "Q s0" .
    have close: "Q (snd (close_batch b i d st msg s2))" if "Q s2" for b i d st msg s2
      using close_batch_db [of b i d st msg s2] upd that by metis
    show ?thesis
    proof (cases "parse_statement P content")
      case none: None
      with None Inr show ?thesis by (simp add: upload_def Let_def close q0)
    next
      case (Some rows)
      let ?b = "uuid_generate (map batch_id (import_batches s))"
      obtain s1 i d k e where r: "import_rows u ?b rows (s0, 0, 0) 0 = ((s1, i, d), k, e)"
        by (metis prod_cases3)
      have "Q s1"
      proof (rule import_rows_preserves [where Q = Q, OF _ q0 r])
        fix r s s' assume "Q s" "insert_transaction r s = Inr s'"
        then show "Q s'" by (rule txn)
      qed
      with None Inr Some r show ?thesis
        by (cases e) (simp_all add: upload_def Let_def close)
    qed
  qed
qed

lemma batches_unique_update:
  assumes "batches_unique s" and "update_import_batch b i d st msg s = Inr s'"
  shows "batches_unique s'"
proof -
  have "map (\<lambda>c. (batch_user_id c, file_hash c)) (import_batches s')
      = map (\<lambda>c. (batch_user_id c, file_hash c)) (import_batches s)"
    unfolding update_import_batch_Inr(1) [OF assms(2)] by (induction "import_batches s") auto
  with assms(1) show ?thesis by (simp add: batches_unique_def)
qed

lemma batches_unique_upload:
  assumes "batches_unique s"
  shows "batches_unique (snd (upload P u name content s))"
proof (rule upload_preserves [of batches_unique, OF _ _ _ assms])
  fix b s s' assume "batches_unique s" "insert_import_batch b s = Inr s'"
  then show "batches_unique s'"
    using batches_unique_statement [of s "InsertBatch b" s'] by simp
next
  fix r s s' assume "batches_unique s" "insert_transaction r s = Inr s'"
  then show "batches_unique s'"
    using batches_unique_statement [of s "InsertTransaction r" s'] by simp
next
  fix b i d st msg s s'
  assume "batches_unique s" "update_import_batch b i d st msg s = Inr s'"
  then show "batches_unique s'" by (rule batches_unique_update)
qed


lemma find_append_last: "find P xs = None \<Longrightarrow> P y \<Longrightarrow> find P (xs @ [y]) = Some y"
  by (induction xs) (auto split: if_splits)

lemma uuid_generate_fresh_row: "c \<in> set xs \<Longrightarrow> f c \<noteq> uuid_generate (map f xs)"
  using uuid_generate_fresh [of "map f xs"] by (metis image_eqI set_map)

lemma find_SomeD: "find P xs = Some x \<Longrightarrow> P x \<and> x \<in> set xs"
  by (induction xs) (auto split: if_splits)

lemma close_batch_Inr:
  assumes "close_batch b i d st msg s = (Inr r, s')"
  shows "update_import_batch b i d st msg s = Inr s'"
    and "find (\<lambda>c. batch_id c = b) (import_batches s') = Some r"
  using assms by (auto simp: close_batch_def split: sum.splits option.splits)

lemma close_batch_status:
  assumes "close_batch b i d st msg s = (Inr r, s')"
  shows "import_status r = Some st"
proof -
  note c = close_batch_Inr [OF assms]
  let ?upd = "\<lambda>c. if batch_id c = b
                then c\<lparr>transactions_imported := Some i, duplicates_skipped := Some d,
                       import_status := Some st, error_message := msg\<rparr>
                else c"
  from find_SomeD [OF c(2)] have r: "batch_id r = b" "r \<in> set (import_batches s')"
    by simp_all
  from r(2) have "r \<in> ?upd ` set (import_batches s)"
    by (simp only: update_import_batch_Inr(1) [OF c(1)] set_map)
  then obtain c0 where c0: "r = ?upd c0" by (rule imageE)
  show ?thesis
  proof (cases "batch_id c0 = b")
    case True
    with c0 show ?thesis by simp
  next
    case False
    with c0 r(1) show ?thesis by simp
  qed
qed

lemma upload_completed_recorded:
  assumes none: "find_batch s u (file_digest P content) = None"
    and up: "upload P u name content s = (Inr r1, s1)"
    and st: "import_status r1 = Some ''completed''"
  shows "find_batch s1 u (file_digest P content) = Some r1"
proof -
  let ?h = "file_digest P content"
  let ?b = "uuid_generate (map batch_id (import_batches s))"
  let ?nb = "new_batch u name ?h content"
  have "\<exists>s0. insert_import_batch ?nb s = Inr s0"
  proof (cases "insert_import_batch ?nb s")
    case (Inl e)
    with none up show ?thesis by (simp add: upload_def)
  next
    case (Inr s0)
    then show ?thesis by simp
  qed
  then obtain s0 where s0: "insert_import_batch ?nb s = Inr s0" ..
  note b0 = insert_import_batch_Inr(4) [OF s0]
  have rows: "\<exists>rows. parse_statement P content = Some rows"
  proof (cases "parse_statement P content")
    case None
    with none up s0 have "close_batch ?b 0 0 ''failed'' (Some ''FormatError'') s0 = (Inr r1, s1)"
      by (simp add: upload_def Let_def)
    from close_batch_status [OF this] st show ?thesis by simp
  next
    case (Some rows)
    then show ?thesis by simp
  qed
  then obtain rows where rows: "parse_statement P content = Some rows" ..
  obtain s2 i d k e where r: "import_rows u ?b rows (s0, 0, 0) 0 = ((s2, i, d), k, e)"
    by (metis prod_cases3)
  have e: "e = None"
  proof (cases e)
    case None
    then show ?thesis .
  next
    case (Some err)
    with none up s0 rows r
    have "close_batch ?b i d ''failed'' (Some ''persistence failure'') s2 = (Inr r1, s1)"
      by (simp add: upload_def Let_def)
    from close_batch_status [OF this] st show ?thesis by simp
  qed
  define msg where "msg = (if k = 0 then None else Some ''rows skipped'')"
  from e none up s0 rows r have cl: "close_batch ?b i d ''completed'' msg s2 = (Inr r1, s1)"
    by (simp add: upload_def Let_def msg_def)
  have b2: "import_batches s2 = import_batches s0"
  proof (rule import_rows_preserves [where Q = "\<lambda>x. import_batches x = import_batches s0", OF _ _ r])
    fix r s s' assume "import_batches s = import_batches s0" "insert_transaction r s = Inr s'"
    then show "import_batches s' = import_batches s0"
      using insert_transaction_Inr(3) by simp
  qed simp
  note c = close_batch_Inr [OF cl]
  let ?upd = "\<lambda>c. if batch_id c = ?b
                then c\<lparr>transactions_imported := Some i, duplicates_skipped := Some d,
                       import_status := Some ''completed'', error_message := msg\<rparr>
                else c"
  have fresh: "?b \<notin> set (map batch_id (import_batches s))"
    by (rule uuid_generate_fresh)
  have nb: "\<forall>c \<in> set (import_batches s). batch_id c \<noteq> ?b"
    by (intro ballI uuid_generate_fresh_row)
  then have old: "map ?upd (import_batches s) = import_batches s"
    by (intro map_idI) simp
  have b1: "import_batches s1 = import_batches s @ [?upd (?nb\<lparr>batch_id := ?b\<rparr>)]"
    unfolding update_import_batch_Inr(1) [OF c(1)] b2 b0 by (simp only: map_append old list.map)
  from nb have "find (\<lambda>c. batch_id c = ?b) (import_batches s) = None"
    unfolding find_None_iff by blast
  then have "find (\<lambda>c. batch_id c = ?b) (import_batches s1) = Some (?upd (?nb\<lparr>batch_id := ?b\<rparr>))"
    unfolding b1 by (rule find_append_last) simp
  with c(2) have r1: "r1 = ?upd (?nb\<lparr>batch_id := ?b\<rparr>)" by simp
  from none have "find (\<lambda>b. batch_user_id b = u \<and> file_hash b = ?h) (import_batches s) = None"
    by (simp add: find_batch_def)
  then have "find (\<lambda>b. batch_user_id b = u \<and> file_hash b = ?h) (import_batches s1)
      = Some (?upd (?nb\<lparr>batch_id := ?b\<rparr>))"
    unfolding b1 by (rule find_append_last) (simp add: new_batch_def)
  then show ?thesis by (simp add: find_batch_def r1)
qed

lemmas import_eval = upload_def find_batch_def example_importer_def insert_import_batch_def
  new_batch_def too_long_def int4_out_of_range_def out_of_range_def init_db_def
  uuid_generate_def process_row_def insert_transaction_def example_transaction_def
  close_batch_def update_import_batch_def Let_def

lemma first_upload:
  "\<exists>r1 s1. upload example_importer 1 ''a.csv'' ''zabka'' init_db = (Inr r1, s1)
      \<and> import_status r1 = Some ''completed''
      \<and> transactions_imported r1 = Some 1 \<and> duplicates_skipped r1 = Some 2
      \<and> length (import_batches s1) = 1 \<and> length (transactions s1) = 1"
  by (simp add: import_eval)



lemma batches_unique_at_most_one:
  "batches_unique s \<Longrightarrow>
   length (filter (\<lambda>b. batch_user_id b = u \<and> file_hash b = h) (import_batches s)) \<le> 1"
  using distinct_map_filter_le1 [of "\<lambda>b. (batch_user_id b, file_hash b)" "import_batches s" "(u, h)"]
  by (simp add: batches_unique_def)

text \<open>
  C7. In every state reached from the initial database, and after every upload into a
  database that respects \<^verbatim>\<open>UNIQUE(user_id, file_hash)\<close>, at most one import batch exists
  per identity and file hash. A second \<^verbatim>\<open>INSERT\<close> of a batch with a recorded (identity,
  hash) pair is rejected and rolled back, and an upload of bytes whose hash is recorded for
  the identity leaves the database unchanged and returns a completed result with zero
  imported rows.
\<close>

theorem one_batch_per_identity_and_hash:
  "length (filter (\<lambda>b. batch_user_id b = u \<and> file_hash b = h)
              (import_batches (run ops init_db))) \<le> 1
   \<and> (batches_unique s \<longrightarrow>
        length (filter (\<lambda>b. batch_user_id b = u \<and> file_hash b = h)
                  (import_batches (snd (upload P v name content s)))) \<le> 1)
   \<and> ((\<exists>c \<in> set (import_batches s).
          batch_user_id c = batch_user_id b \<and> file_hash c = file_hash b) \<longrightarrow>
        (\<exists>e. insert_import_batch b s = Inl e) \<and> exec (InsertBatch b) s = s)
   \<and> (find_batch s v (file_digest P content) \<noteq> None \<longrightarrow>
        snd (upload P v name content s) = s
        \<and> (\<exists>r. fst (upload P v name content s) = Inr r
              \<and> transactions_imported r = Some 0
              \<and> import_status r = Some ''completed''))"
proof (intro conjI impI)
  from tables_unique_run [OF init_db_unique, of ops]
  show "length (filter (\<lambda>b. batch_user_id b = u \<and> file_hash b = h)
              (import_batches (run ops init_db))) \<le> 1"
    by (intro batches_unique_at_most_one) simp
next
  assume "batches_unique s"
  then show "length (filter (\<lambda>b. batch_user_id b = u \<and> file_hash b = h)
                  (import_batches (snd (upload P v name content s)))) \<le> 1"
    by (intro batches_unique_at_most_one batches_unique_upload)
next
  assume a: "\<exists>c \<in> set (import_batches s).
          batch_user_id c = batch_user_id b \<and> file_hash c = file_hash b"
  from insert_import_batch_stored_hash [OF a]
  show "\<exists>e. insert_import_batch b s = Inl e" .
  then show "exec (InsertBatch b) s = s" by (auto simp: exec_def)
next
  assume "find_batch s v (file_digest P content) \<noteq> None"
  then obtain prev where "find_batch s v (file_digest P content) = Some prev" by blast
  then show "snd (upload P v name content s) = s"
    and "\<exists>r. fst (upload P v name content s) = Inr r
              \<and> transactions_imported r = Some 0
              \<and> import_status r = Some ''completed''"
    by (simp_all add: upload_def)
qed

theorem one_batch_per_identity_and_hash_witness:
  "batches_unique init_db
   \<and> (\<exists>r1 s1. upload example_importer 1 ''a.csv'' ''zabka'' init_db = (Inr r1, s1)
        \<and> find_batch s1 1 (file_digest example_importer ''zabka'') = Some r1
        \<and> length (filter (\<lambda>b. batch_user_id b = 1 \<and> file_hash b = ''zabka'') (import_batches s1)) \<le> 1
        \<and> snd (upload example_importer 1 ''b.csv'' ''zabka'' s1) = s1)"
proof -
  from first_upload obtain r1 s1 where
    up: "upload example_importer 1 ''a.csv'' ''zabka'' init_db = (Inr r1, s1)"
    and st: "import_status r1 = Some ''completed''"
    by blast
  have none: "find_batch init_db 1 (file_digest example_importer ''zabka'') = None"
    by (simp add: find_batch_def init_db_def)
  note f = upload_completed_recorded [OF none up st]
  note t = one_batch_per_identity_and_hash
  from t [where u = 1 and h = "''zabka''" and s = init_db and P = example_importer and v = 1
        and name = "''a.csv''" and content = "''zabka''",
      THEN conjunct2, THEN conjunct1] init_db_unique(2) up
  have a: "length (filter (\<lambda>b. batch_user_id b = 1 \<and> file_hash b = ''zabka'') (import_batches s1)) \<le> 1"
    by simp
  from t [where s = s1 and P = example_importer and v = 1 and name = "''b.csv''"
        and content = "''zabka''",
      THEN conjunct2, THEN conjunct2, THEN conjunct2] f
  have b: "snd (upload example_importer 1 ''b.csv'' ''zabka'' s1) = s1"
    by simp
  from init_db_unique(2) up f a b show ?thesis by blast
qed

section \<open>Rule applications\<close>

lemma recorded_insert:
  "recorded (insert_rule_application r x apps) r' x' \<longleftrightarrow> recorded apps r' x' \<or> (r' = r \<and> x' = x)"
  by (auto simp: recorded_def insert_rule_application_def)

lemma evaluate_rules_Cons:
  "snd (snd (evaluate_rules ev (r0 # rs) x apps)) =
     (if recorded apps (rule_id r0) (txn_id x) then snd (snd (evaluate_rules ev rs x apps))
      else if ev (conditions r0) x = Some True
      then snd (snd (evaluate_rules ev rs x (insert_rule_application (rule_id r0) (txn_id x) apps)))
      else snd (snd (evaluate_rules ev rs x apps)))"
  "fst (snd (evaluate_rules ev (r0 # rs) x apps)) =
     (if recorded apps (rule_id r0) (txn_id x) then fst (snd (evaluate_rules ev rs x apps))
      else if ev (conditions r0) x = Some True
      then rule_id r0 # fst (snd (evaluate_rules ev rs x
              (insert_rule_application (rule_id r0) (txn_id x) apps)))
      else rule_id r0 # fst (snd (evaluate_rules ev rs x apps)))"
  "fst (evaluate_rules ev (r0 # rs) x apps) =
     (if recorded apps (rule_id r0) (txn_id x) then fst (evaluate_rules ev rs x apps)
      else if ev (conditions r0) x = Some True
      then map (\<lambda>g. (g, rule_confidence r0, UserRule (rule_id r0))) (tag_ids r0)
           @ fst (evaluate_rules ev rs x (insert_rule_application (rule_id r0) (txn_id x) apps))
      else fst (evaluate_rules ev rs x apps))"
  by (simp_all split: prod.splits)

lemma evaluate_rules_keeps:
  assumes "recorded apps r x'"
  shows "recorded (snd (snd (evaluate_rules ev rules x apps))) r x'"
  using assms
proof (induction rules arbitrary: apps)
  case Nil
  then show ?case by simp
next
  case (Cons r0 rs)
  from Cons.prems have ins: "recorded (insert_rule_application (rule_id r0) (txn_id x) apps) r x'"
    by (simp add: recorded_insert)
  from Cons.IH [OF Cons.prems] Cons.IH [OF ins] show ?case
    by (simp add: evaluate_rules_Cons del: evaluate_rules.simps)
qed

lemma evaluate_rules_skips:
  assumes "recorded apps r (txn_id x)"
  shows "r \<notin> set (fst (snd (evaluate_rules ev rules x apps)))
       \<and> UserRule r \<notin> (\<lambda>p. snd (snd p)) ` set (fst (evaluate_rules ev rules x apps))"
  using assms
proof (induction rules arbitrary: apps)
  case Nil
  then show ?case by simp
next
  case (Cons r0 rs)
  show ?case
  proof (cases "recorded apps (rule_id r0) (txn_id x)")
    case True
    with Cons.IH [OF Cons.prems] show ?thesis by (simp add: evaluate_rules_Cons del: evaluate_rules.simps)
  next
    case False
    with Cons.prems have ne: "rule_id r0 \<noteq> r" by auto
    from Cons.prems have ins: "recorded (insert_rule_application (rule_id r0) (txn_id x) apps) r (txn_id x)"
      by (simp add: recorded_insert)
    from False ne Cons.IH [OF Cons.prems] Cons.IH [OF ins] show ?thesis
      by (auto simp add: evaluate_rules_Cons simp del: evaluate_rules.simps)
  qed
qed

lemma evaluate_rules_records:
  assumes "rule \<in> set rules" and "ev (conditions rule) x = Some True"
  shows "recorded (snd (snd (evaluate_rules ev rules x apps))) (rule_id rule) (txn_id x)"
  using assms(1)
proof (induction rules arbitrary: apps)
  case Nil
  then show ?case by simp
next
  case (Cons r0 rs)
  show ?case
  proof (cases "rule = r0")
    case True
    show ?thesis
    proof (cases "recorded apps (rule_id r0) (txn_id x)")
      case rec: True
      from evaluate_rules_keeps [OF rec, of ev rs x] rec True show ?thesis
        by (simp add: evaluate_rules_Cons del: evaluate_rules.simps)
    next
      case False
      have "recorded (insert_rule_application (rule_id r0) (txn_id x) apps) (rule_id r0) (txn_id x)"
        by (simp add: recorded_insert)
      from evaluate_rules_keeps [OF this, of ev rs x] False True assms(2) show ?thesis
        by (simp add: evaluate_rules_Cons del: evaluate_rules.simps)
    qed
  next
    case False
    with Cons.prems have "rule \<in> set rs" by simp
    from Cons.IH [OF this] show ?thesis
      by (simp add: evaluate_rules_Cons del: evaluate_rules.simps)
  qed
qed

lemma engine_runs_skips:
  assumes "recorded apps r x"
  shows "(\<forall>out \<in> set (fst (engine_runs ev jobs apps)).
           fst out = x \<longrightarrow>
             r \<notin> set (snd (snd out)) \<and> UserRule r \<notin> (\<lambda>p. snd (snd p)) ` set (fst (snd out)))
       \<and> recorded (snd (engine_runs ev jobs apps)) r x"
  using assms
proof (induction jobs arbitrary: apps)
  case Nil
  then show ?case by simp
next
  case (Cons job jobs)
  obtain rules y where job: "job = (rules, y)" by (cases job)
  obtain ps es apps' where u: "user_rules ev rules y apps = (ps, es, apps')"
    by (cases "user_rules ev rules y apps")
  obtain outs apps'' where e: "engine_runs ev jobs apps' = (outs, apps'')"
    by (cases "engine_runs ev jobs apps'")
  from evaluate_rules_keeps [OF Cons.prems, of ev "sort_key (\<lambda>r. - rule_priority r) rules" y] u
  have k: "recorded apps' r x"
    by (simp add: user_rules_def)
  have here: "txn_id y = x \<longrightarrow> r \<notin> set es \<and> UserRule r \<notin> (\<lambda>p. snd (snd p)) ` set ps"
  proof
    assume "txn_id y = x"
    with Cons.prems have "recorded apps r (txn_id y)" by simp
    from evaluate_rules_skips [OF this, of ev "sort_key (\<lambda>r. - rule_priority r) rules"] u
    show "r \<notin> set es \<and> UserRule r \<notin> (\<lambda>p. snd (snd p)) ` set ps"
      by (simp add: user_rules_def)
  qed
  from Cons.IH [OF k] e here show ?case
    by (simp add: job u del: evaluate_rules.simps)
qed

text \<open>
  C6. Once the audit table holds an entry for a rule and a transaction, no later run of the
  engine on that transaction evaluates the rule or proposes a tag on its behalf, however
  many runs follow and whatever rule sets they are given, and the entry stays recorded.
  The entry comes about when the rule matches: after a run in which a rule of the set
  matches the transaction, its entry is in the audit table.
\<close>

theorem recorded_rule_not_evaluated_again:
  assumes "recorded apps r x"
  shows "(\<forall>out \<in> set (fst (engine_runs ev jobs apps)).
            fst out = x \<longrightarrow>
              r \<notin> set (snd (snd out))
              \<and> UserRule r \<notin> (\<lambda>p. snd (snd p)) ` set (fst (snd out)))
    \<and> recorded (snd (engine_runs ev jobs apps)) r x
    \<and> (\<forall>rule \<in> set rules.
          ev (conditions rule) t = Some True \<longrightarrow>
            recorded (snd (snd (user_rules ev rules t apps'))) (rule_id rule) (txn_id t))"
proof (intro conjI ballI impI)
  fix rule assume "rule \<in> set rules" and m: "ev (conditions rule) t = Some True"
  then have "rule \<in> set (sort_key (\<lambda>r. - rule_priority r) rules)" by simp
  from evaluate_rules_records [where ev = ev and x = t, OF this m]
  show "recorded (snd (snd (user_rules ev rules t apps'))) (rule_id rule) (txn_id t)"
    by (simp add: user_rules_def)
next
  show "recorded (snd (engine_runs ev jobs apps)) r x"
    using engine_runs_skips [OF assms] by blast
next
  fix out assume o: "out \<in> set (fst (engine_runs ev jobs apps))" "fst out = x"
  with engine_runs_skips [OF assms, of ev jobs]
  show "r \<notin> set (snd (snd out))" and "UserRule r \<notin> (\<lambda>p. snd (snd p)) ` set (fst (snd out))"
    by blast+
qed

lemmas engine_eval = user_rules_def example_rule_def example_other_rule_def example_ev_def
  example_transaction_def recorded_def insert_rule_application_def uuid_generate_def
  example_applications_def

theorem recorded_rule_not_evaluated_again_witness:
  "user_rules example_ev [example_rule, example_other_rule] example_transaction []
     = ([(1, 90, UserRule 5), (2, 90, UserRule 5)], [6, 5], example_applications)
   \<and> recorded example_applications 5 1
   \<and> fst (engine_runs example_ev
        [([example_rule, example_other_rule], example_transaction),
         ([example_rule], example_transaction)] example_applications)
     = [(1, [], [6]), (1, [], [])]
   \<and> recorded (snd (engine_runs example_ev
        [([example_rule, example_other_rule], example_transaction),
         ([example_rule], example_transaction)] example_applications)) 5 1"
proof -
  have a: "user_rules example_ev [example_rule, example_other_rule] example_transaction []
     = ([(1, 90, UserRule 5), (2, 90, UserRule 5)], [6, 5], example_applications)"
    by (simp add: engine_eval)
  have b: "recorded example_applications 5 1"
    by (simp add: recorded_def example_applications_def)
  have c: "fst (engine_runs example_ev
        [([example_rule, example_other_rule], example_transaction),
         ([example_rule], example_transaction)] example_applications)
     = [(1, [], [6]), (1, [], [])]"
    by (simp add: engine_eval)
  note d = recorded_rule_not_evaluated_again [OF b, THEN conjunct2, THEN conjunct1]
  show ?thesis
    by (intro conjI) (rule a b c d)+
qed


section \<open>Recorded confidence\<close>

lemma round_half_away_unit:
  assumes "0 \<le> m" and "m \<le> 100 * d" and "0 < d"
  shows "0 \<le> round_half_away m d \<and> round_half_away m d \<le> 100"
proof -
  have "(2 * m + d) div (2 * d) \<le> (201 * d) div (2 * d)"
    using assms by (intro zdiv_mono1) auto
  also have "\<dots> = 100" using assms(3) by simp
  finally have "(2 * m + d) div (2 * d) \<le> 100" .
  moreover have "0 \<le> (2 * m + d) div (2 * d)"
    using assms by (simp add: pos_imp_zdiv_nonneg_iff)
  ultimately show ?thesis
    using assms(1) by (cases "m = 0") (simp_all add: round_half_away_def)
qed

lemma numeric_unit:
  assumes "numeric 3 2 (Decimal m e) = Inr v" and "0 \<le> m" and "m \<le> 10 ^ e"
  shows "\<exists>h. v = Number h \<and> 0 \<le> h \<and> h \<le> 100"
proof (cases "e \<le> 2")
  case True
  with assms(1) have h: "v = Number (m * 10 ^ (2 - e))" by (simp add: Let_def split: if_splits)
  have "m * 10 ^ (2 - e) \<le> 10 ^ e * 10 ^ (2 - e)"
    using assms(3) by (intro mult_right_mono) auto
  also have "\<dots> = (10::int) ^ 2" using True by (simp flip: power_add)
  finally show ?thesis using assms(2) by (simp add: h)
next
  case False
  with assms(1) have h: "v = Number (round_half_away m (10 ^ (e - 2)))"
    by (simp add: Let_def split: if_splits)
  from False have "e = 2 + (e - 2)" by simp
  then have "(10::int) ^ e = 10 ^ 2 * 10 ^ (e - 2)" by (metis power_add)
  with assms(3) have "m \<le> 100 * 10 ^ (e - 2)" by simp
  with assms(2) have "0 \<le> round_half_away m (10 ^ (e - 2))
      \<and> round_half_away m (10 ^ (e - 2)) \<le> 100"
    by (intro round_half_away_unit) auto
  with h show ?thesis by simp
qed

lemma numeric_opt_unit:
  assumes "numeric_opt 3 2 conf = Inr c" and "decimal_in_unit_interval conf"
  shows "in_unit_interval c"
proof -
  from assms(2) obtain m e where conf: "conf = Some (Decimal m e)" and m: "0 \<le> m" "m \<le> 10 ^ e"
    by (cases conf rule: decimal_in_unit_interval.cases) simp_all
  from assms(1) conf obtain v where v: "numeric 3 2 (Decimal m e) = Inr v" "c = Some v"
    by (auto split: sum.splits)
  from numeric_unit [OF v(1) m] v(2) show ?thesis by (auto simp: in_unit_interval_def)
qed

text \<open>
  A provenance that is stored as one of the automatic values was handed over as that
  value: \<^verbatim>\<open>VARCHAR(50)\<close> changes only values longer than 50 characters, and what it
  leaves of them has 50 characters.
\<close>

lemma varchar_opt_automatic:
  assumes "varchar_opt 50 src = Inr src'" and "automatic_provenance src'"
  shows "automatic_provenance src"
proof (cases src)
  case None
  with assms show ?thesis by simp
next
  case (Some v)
  show ?thesis
  proof (cases "length v \<le> 50")
    case True
    with assms Some show ?thesis by (simp add: varchar_def)
  next
    case False
    define w where "w = take 50 v"
    from False have l: "length w = 50" by (simp add: w_def)
    from assms(1) Some False have "src' = Some w"
      by (simp add: varchar_def w_def split: if_splits)
    with assms(2) have "w = ''auto_rule'' \<or> w = ''auto_merchant'' \<or> w = ''auto_nlp''"
      by (simp add: automatic_provenance_def)
    with l have "False" by auto
    then show ?thesis ..
  qed
qed

lemma statement_links_handed:
  assumes "statement opn s = Inr s'"
  shows "transaction_tags s' = transaction_tags s
    \<or> (\<exists>p. transaction_tags s' = filter p (transaction_tags s))
    \<or> (\<exists>new. transaction_tags s' = transaction_tags s @ [new]
          \<and> varchar_opt 50 (op_source opn) = Inr (tt_source new)
          \<and> numeric_opt 3 2 (op_confidence opn) = Inr (tt_confidence new))"
proof -
  have ins: "\<exists>new. transaction_tags s' = transaction_tags s @ [new]
          \<and> varchar_opt 50 src = Inr (tt_source new)
          \<and> numeric_opt 3 2 conf = Inr (tt_confidence new)"
    if "insert_transaction_tag x g src conf s = Inr s'" for x g src conf
    using insert_transaction_tag_Inr [OF that] by blast
  show ?thesis
  proof (cases opn)
    case (InsertLink x g src conf)
    with assms have "insert_transaction_tag x g src conf s = Inr s'" by simp
    from ins [OF this] InsertLink show ?thesis by simp
  next
    case (ApplyTag x g src conf)
    with assms have "s' = s \<or> insert_transaction_tag x g (Some src) conf s = Inr s'"
      by (auto simp: applyTag_def split: if_splits)
    then show ?thesis
    proof
      assume "s' = s" then show ?thesis by simp
    next
      assume "insert_transaction_tag x g (Some src) conf s = Inr s'"
      from ins [OF this] ApplyTag show ?thesis by simp
    qed
  next
    case (CreateTag u n dn c i d)
    with assms have "insert_tag u n dn c i d s = Inr s'" by simp
    from insert_tag_Inr [OF this] show ?thesis by blast
  next
    case (InsertBatch b)
    with assms have "insert_import_batch b s = Inr s'" by simp
    from insert_import_batch_Inr(2) [OF this] show ?thesis by blast
  next
    case (InsertTransaction r)
    with assms have "insert_transaction r s = Inr s'" by simp
    from insert_transaction_Inr(2) [OF this] show ?thesis by blast
  next
    case (DeleteLinks p)
    with assms have "delete_transaction_tags p s = Inr s'" by simp
    from delete_transaction_tags_Inr(1) [OF this] show ?thesis by blast
  next
    case (RemoveTag x g)
    with assms have "s' = s
        \<or> delete_transaction_tags (\<lambda>l. tt_transaction_id l = x \<and> tt_tag_id l = g) s = Inr s'"
      by (auto simp: removeTag_def split: if_splits)
    then show ?thesis using delete_transaction_tags_Inr(1) by blast
  qed
qed

lemma automatic_confidence_statement:
  assumes s': "statement opn s = Inr s'"
    and inv: "automatic_confidence_in_unit_interval s"
    and h: "hands_unit_confidence opn"
  shows "automatic_confidence_in_unit_interval s'"
proof -
  from statement_links_handed [OF s']
  consider "transaction_tags s' = transaction_tags s"
    | p where "transaction_tags s' = filter p (transaction_tags s)"
    | new where "transaction_tags s' = transaction_tags s @ [new]"
        "varchar_opt 50 (op_source opn) = Inr (tt_source new)"
        "numeric_opt 3 2 (op_confidence opn) = Inr (tt_confidence new)"
    by blast
  then show ?thesis
  proof cases
    case 1
    with inv show ?thesis by (simp add: automatic_confidence_in_unit_interval_def)
  next
    case 2
    with inv show ?thesis by (simp add: automatic_confidence_in_unit_interval_def)
  next
    case 3
    have "in_unit_interval (tt_confidence new)" if a: "automatic_provenance (tt_source new)"
    proof -
      from varchar_opt_automatic [OF 3(2) a] h
      have "decimal_in_unit_interval (op_confidence opn)" by (simp add: hands_unit_confidence_def)
      with 3(3) show ?thesis by (rule numeric_opt_unit)
    qed
    with inv 3(1) show ?thesis by (simp add: automatic_confidence_in_unit_interval_def)
  qed
qed

lemma automatic_confidence_run:
  assumes "automatic_confidence_in_unit_interval s"
    and "\<forall>opn \<in> set ops. hands_unit_confidence opn"
  shows "automatic_confidence_in_unit_interval (run ops s)"
  using assms unfolding run_def
proof (induction ops arbitrary: s)
  case Nil
  then show ?case by simp
next
  case (Cons opn ops)
  have "automatic_confidence_in_unit_interval (exec opn s)"
  proof (rule exec_cases [of opn s])
    assume "exec opn s = s"
    with Cons.prems(1) show ?thesis by simp
  next
    fix s' assume s': "statement opn s = Inr s'" "exec opn s = s'"
    from Cons.prems(2) have "hands_unit_confidence opn" by simp
    from automatic_confidence_statement [OF s'(1) Cons.prems(1) this] s'(2)
    show ?thesis by simp
  qed
  with Cons.IH [of "exec opn s"] Cons.prems(2) show ?case by simp
qed

text \<open>
  C8, as the schema has it. The column \<^verbatim>\<open>transaction_tags.confidence\<close> is
  \<^verbatim>\<open>NUMERIC(3, 2)\<close> and nothing in the schema relates it to \<^verbatim>\<open>source\<close>, so the
  recorded confidence is the one that the writer of the link hands over. When every
  operation that hands over an automatic provenance (\<^verbatim>\<open>auto_rule\<close>,
  \<^verbatim>\<open>auto_merchant\<close>, \<^verbatim>\<open>auto_nlp\<close>) hands over a confidence that is a number in
  [0,1] with it, the recorded confidence of every link with automatic provenance is a
  number in [0,1], not \<^verbatim>\<open>NULL\<close> and not \<^verbatim>\<open>NaN\<close>.
\<close>

theorem automatic_confidence_follows_input:
  assumes "\<forall>opn \<in> set ops. hands_unit_confidence opn"
  shows "automatic_confidence_in_unit_interval (run ops init_db)"
proof (rule automatic_confidence_run [OF _ assms])
  show "automatic_confidence_in_unit_interval init_db"
    by (simp add: automatic_confidence_in_unit_interval_def init_db_def)
qed

theorem automatic_confidence_follows_input_witness:
  "list_all hands_unit_confidence example_confident
   \<and> map (\<lambda>l. (tt_source l, tt_confidence l)) (transaction_tags (run example_confident init_db))
       = [(Some ''auto_rule'', Some (Number 90))]
   \<and> automatic_confidence_in_unit_interval (run example_confident init_db)"
proof -
  have h: "\<forall>opn \<in> set example_confident. hands_unit_confidence opn"
    by (simp add: example_confident_def hands_unit_confidence_def automatic_provenance_def)
  have v: "map (\<lambda>l. (tt_source l, tt_confidence l))
      (transaction_tags (run example_confident init_db)) = [(Some ''auto_rule'', Some (Number 90))]"
    by (simp add: example_confident_def ledger_eval)
  from automatic_confidence_follows_input [OF h] h v show ?thesis by (simp only: list_all_iff)
qed

text \<open>
  C8, as claimed, fails: a link of provenance \<^verbatim>\<open>auto_rule\<close> inserted with confidence 1.5
  is accepted and recorded with confidence 1.50.
\<close>

theorem automatic_confidence_counterexample:
  "map (\<lambda>l. (tt_source l, tt_confidence l)) (transaction_tags (run example_overconfident init_db))
     = [(Some ''auto_rule'', Some (Number 150))]
   \<and> \<not> automatic_confidence_in_unit_interval (run example_overconfident init_db)"
  by (simp add: example_overconfident_def ledger_eval automatic_confidence_in_unit_interval_def
      automatic_provenance_def in_unit_interval_def)

text \<open>
  The same holds for a link inserted with \<^verbatim>\<open>NaN\<close>, which \<^verbatim>\<open>NUMERIC(3, 2)\<close> stores,
  and for one inserted without a confidence.
\<close>

lemma automatic_confidence_not_a_number:
  "map (\<lambda>l. (tt_source l, tt_confidence l)) (transaction_tags (run example_unscored init_db))
     = [(Some ''auto_nlp'', Some NaN), (Some ''auto_merchant'', None)]
   \<and> \<not> automatic_confidence_in_unit_interval (run example_unscored init_db)"
  by (simp add: example_unscored_def ledger_eval automatic_confidence_in_unit_interval_def
      automatic_provenance_def in_unit_interval_def)

section \<open>Enrichment\<close>

lemma kept_refl: "kept v v"
  by (simp add: kept_def)

lemma kept_fill: "kept old (fill old new)"
  by (cases old) (simp_all add: kept_def fill_def)

lemma kept_trans: "kept a b \<Longrightarrow> kept b c \<Longrightarrow> kept a c"
  by (auto simp: kept_def)

lemma other_fields_updated_at:
  "other_fields (r\<lparr>updated_at := u\<rparr>) = (other_fields r)\<lparr>updated_at := u\<rparr>"
  by (simp add: other_fields_def)

lemma additive_refl: "additive_up_to_updated_at r r"
  by (simp add: additive_up_to_updated_at_def enrichment_fields_kept_def kept_refl)

lemma additive_trans:
  assumes "additive_up_to_updated_at r r'" and "additive_up_to_updated_at r' r''"
  shows "additive_up_to_updated_at r r''"
proof -
  from assms have k: "enrichment_fields_kept r r''"
    unfolding additive_up_to_updated_at_def enrichment_fields_kept_def
    by (intro conjI) (erule conjE, (erule conjE)+, erule (1) kept_trans)+
  from assms(2) have "(other_fields r'')\<lparr>updated_at := updated_at r'\<rparr> = other_fields r'"
    by (simp add: additive_up_to_updated_at_def other_fields_updated_at)
  then have "((other_fields r'')\<lparr>updated_at := updated_at r'\<rparr>)\<lparr>updated_at := updated_at r\<rparr>
      = (other_fields r')\<lparr>updated_at := updated_at r\<rparr>" by (rule arg_cong)
  with assms(1) have "other_fields (r''\<lparr>updated_at := updated_at r\<rparr>) = other_fields r"
    by (simp add: additive_up_to_updated_at_def other_fields_updated_at)
  with k show ?thesis by (simp add: additive_up_to_updated_at_def)
qed

lemma additive_populate_raw_merchant_text:
  "additive_up_to_updated_at r
     (if raw_merchant_text r = None
      then update_updated_at_column now (r\<lparr>raw_merchant_text := Some (title r)\<rparr>) else r)"
proof (cases "raw_merchant_text r")
  case None
  then show ?thesis
    by (simp add: additive_up_to_updated_at_def enrichment_fields_kept_def kept_def
        update_updated_at_column_def other_fields_def)
next
  case (Some v)
  then show ?thesis by (simp add: additive_refl)
qed

lemma additive_apply_enrichment:
  "additive_up_to_updated_at r (update_updated_at_column now (apply_enrichment e r))"
  by (simp add: additive_up_to_updated_at_def enrichment_fields_kept_def kept_fill kept_refl
      update_updated_at_column_def apply_enrichment_def other_fields_def)

lemma list_all2_map_self:
  assumes "\<And>x. P x (f x)"
  shows "list_all2 P xs (map f xs)"
  by (simp add: list_all2_map2 list_all2_same assms)

lemma additive_enrichment_statement:
  "list_all2 additive_up_to_updated_at (transactions s) (transactions (enrichment_statement opn s))"
proof (cases opn)
  case (PopulateRawMerchantText now)
  then show ?thesis
    by (simp add: populate_raw_merchant_text_def)
      (rule list_all2_map_self, rule additive_populate_raw_merchant_text)
next
  case (EnrichTransaction now x e)
  have "additive_up_to_updated_at r
      (if txn_id r = x then update_updated_at_column now (apply_enrichment e r) else r)" for r
    by (simp add: additive_apply_enrichment additive_refl)
  with EnrichTransaction show ?thesis
    by (simp add: enrich_transaction_def) (rule list_all2_map_self)
qed

lemma enrichment_statement_tables:
  "import_batches (enrichment_statement opn s) = import_batches s"
  "tags (enrichment_statement opn s) = tags s"
  "transaction_tags (enrichment_statement opn s) = transaction_tags s"
  by (cases opn; simp add: populate_raw_merchant_text_def enrich_transaction_def)+

lemma additive_enrichments:
  "list_all2 additive_up_to_updated_at (transactions s) (transactions (enrichments ops s))"
  unfolding enrichments_def
proof (induction ops arbitrary: s)
  case Nil
  show ?case by (simp add: list_all2_same additive_refl)
next
  case (Cons opn ops)
  have "list_all2 additive_up_to_updated_at (transactions s)
      (transactions (fold enrichment_statement ops (enrichment_statement opn s)))"
    using additive_enrichment_statement [of s opn] Cons.IH [of "enrichment_statement opn s"]
    by (rule list_all2_trans [rotated]) (erule (1) additive_trans)
  then show ?case by simp
qed

lemma enrichments_tables:
  "import_batches (enrichments ops s) = import_batches s
   \<and> tags (enrichments ops s) = tags s
   \<and> transaction_tags (enrichments ops s) = transaction_tags s"
  unfolding enrichments_def
  by (induction ops arbitrary: s) (simp_all add: enrichment_statement_tables)

text \<open>
  What the claim asks for is what the amended statement gives together with an unchanged
  \<^verbatim>\<open>updated_at\<close>: the amendment sets aside that one column and nothing else.
\<close>

lemma purely_additive_iff:
  "purely_additive r r' \<longleftrightarrow> additive_up_to_updated_at r r' \<and> updated_at r' = updated_at r"
proof
  assume p: "purely_additive r r'"
  then have o: "other_fields r' = other_fields r" by (simp add: purely_additive_def)
  then have "updated_at (other_fields r') = updated_at (other_fields r)" by simp
  then have u: "updated_at r' = updated_at r" by (simp add: other_fields_def)
  have e: "r'\<lparr>updated_at := updated_at r\<rparr> = r'" by (simp flip: u)
  from p have "enrichment_fields_kept r r'" by (simp add: purely_additive_def)
  then have "additive_up_to_updated_at r r'" unfolding additive_up_to_updated_at_def e
    using o ..
  then show "additive_up_to_updated_at r r' \<and> updated_at r' = updated_at r" using u ..
next
  assume a: "additive_up_to_updated_at r r' \<and> updated_at r' = updated_at r"
  then have u: "updated_at r' = updated_at r" ..
  have e: "r'\<lparr>updated_at := updated_at r\<rparr> = r'" by (simp flip: u)
  from a have "additive_up_to_updated_at r r'" ..
  then show "purely_additive r r'" unfolding additive_up_to_updated_at_def purely_additive_def e .
qed

text \<open>
  The back-fill of the migration leaves no transaction without \<^verbatim>\<open>raw_merchant_text\<close>,
  and it stamps exactly the rows it fills.
\<close>

lemma populate_raw_merchant_text_fills:
  "list_all2 (\<lambda>r r'. raw_merchant_text r' = fill (raw_merchant_text r) (Some (title r))
      \<and> updated_at r' = (if raw_merchant_text r = None then Some now else updated_at r))
     (transactions s) (transactions (populate_raw_merchant_text now s))"
  unfolding populate_raw_merchant_text_def
  by (simp add: list_all2_map2 list_all2_same update_updated_at_column_def fill_def
      split: option.splits)

text \<open>
  C9, as the schema has it. Over any sequence of enrichment statements, each transaction
  keeps the value of every enrichment field that held one (so a merchant or store link set
  by hand is never overwritten, and only empty enrichment fields are filled), and all its
  other fields are unchanged except \<^verbatim>\<open>updated_at\<close>, which the trigger
  \<^verbatim>\<open>update_transactions_updated_at\<close> sets to the time of the \<^verbatim>\<open>UPDATE\<close>. No row is
  added or removed, and the other tables are unchanged.
\<close>

theorem enrichment_additive_up_to_updated_at:
  "list_all2 additive_up_to_updated_at (transactions s) (transactions (enrichments ops s))
   \<and> import_batches (enrichments ops s) = import_batches s
   \<and> tags (enrichments ops s) = tags s
   \<and> transaction_tags (enrichments ops s) = transaction_tags s"
  using additive_enrichments [of s ops] enrichments_tables [of ops s] by simp

theorem enrichment_additive_up_to_updated_at_witness:
  "map (\<lambda>r. (merchant_id r, normalized_merchant_name r, updated_at r)) (transactions example_edited_db)
     = [(Some 7, Some ''Zabka Polska'', Some 100)]
   \<and> map (\<lambda>r. (merchant_id r, normalized_merchant_name r, updated_at r))
       (transactions (enrichments example_enrichments example_edited_db))
     = [(Some 7, Some ''Zabka Polska'', Some 400)]
   \<and> map (\<lambda>r. (store_id r, location_extracted r, raw_merchant_text r, merchant_confidence r))
       (transactions (enrichments example_enrichments example_edited_db))
     = [(Some 12, Some ''WARSZAWA'', Some ''ZABKA 1234 WARSZAWA'', Some (Number 95))]
   \<and> list_all2 additive_up_to_updated_at (transactions example_edited_db)
       (transactions (enrichments example_enrichments example_edited_db))"
proof -
  have v: "transactions (enrichments example_enrichments example_edited_db)
      = [example_edited\<lparr>store_id := Some 12, location_extracted := Some ''WARSZAWA'',
           raw_merchant_text := Some ''ZABKA 1234 WARSZAWA'',
           merchant_confidence := Some (Number 95), updated_at := Some 400\<rparr>]"
    by (simp add: enrichments_def example_enrichments_def example_edited_db_def example_db_def
        example_edited_def example_transaction_def example_enrichment_def
        enrich_transaction_def populate_raw_merchant_text_def apply_enrichment_def
        update_updated_at_column_def fill_def)
  have a: "map (\<lambda>r. (merchant_id r, normalized_merchant_name r, updated_at r))
      (transactions example_edited_db) = [(Some 7, Some ''Zabka Polska'', Some 100)]"
    by (simp add: example_edited_db_def example_edited_def example_transaction_def)
  have b: "map (\<lambda>r. (merchant_id r, normalized_merchant_name r, updated_at r))
       (transactions (enrichments example_enrichments example_edited_db))
     = [(Some 7, Some ''Zabka Polska'', Some 400)]"
    unfolding v by (simp add: example_edited_def example_transaction_def)
  have c: "map (\<lambda>r. (store_id r, location_extracted r, raw_merchant_text r, merchant_confidence r))
       (transactions (enrichments example_enrichments example_edited_db))
     = [(Some 12, Some ''WARSZAWA'', Some ''ZABKA 1234 WARSZAWA'', Some (Number 95))]"
    unfolding v by simp
  from enrichment_additive_up_to_updated_at
    [where s = example_edited_db and ops = example_enrichments, THEN conjunct1] a b c
  show ?thesis by (intro conjI)
qed

text \<open>
  C9, as claimed, fails on its last part: the back-fill of migration 002, run at time 200
  on a transaction last written at time 100, fills \<^verbatim>\<open>raw_merchant_text\<close> and the trigger
  moves \<^verbatim>\<open>updated_at\<close>, which is not an enrichment field, to 200.
\<close>

theorem enrichment_moves_updated_at:
  "map (\<lambda>r. (raw_merchant_text r, updated_at r)) (transactions example_db) = [(None, Some 100)]
   \<and> map (\<lambda>r. (raw_merchant_text r, updated_at r))
       (transactions (populate_raw_merchant_text 200 example_db))
     = [(Some ''ZABKA 1234 WARSZAWA'', Some 200)]
   \<and> \<not> list_all2 purely_additive (transactions example_db)
       (transactions (populate_raw_merchant_text 200 example_db))"
proof -
  have "updated_at (other_fields r') \<noteq> updated_at (other_fields r)"
    if "updated_at r = Some 100" "updated_at r' = Some 200" for r r'
    using that by (simp add: other_fields_def)
  then have n: "\<not> purely_additive r r'"
    if "updated_at r = Some 100" "updated_at r' = Some 200" for r r'
    using that unfolding purely_additive_def by metis
  show ?thesis
    by (simp add: example_db_def example_transaction_def populate_raw_merchant_text_def
        update_updated_at_column_def n)
qed

section \<open>Content hash\<close>



lemma content_hash_stored:
  "content_hash digest (r\<lparr>txn_id := x, txn_user_id := u, import_batch_id := b, transaction_hash := h\<rparr>)
     = content_hash digest r"
  by (simp add: content_hash_def identity_fields_def)























end
